theory Spec2Isabelle
  imports Main "HOL-Library.Multiset"
begin

section \<open>Binary search tree (python/05_DSA_Custom/05_binary_search_tree.py)\<close>

text \<open>
  A \<open>Node\<close> object has the fields \<open>left\<close>, \<open>right\<close> and \<open>val\<close>, in the order the
  constructor assigns them; a link is either \<open>None\<close> or a node. The trees of this file
  are only ever built by \<open>insert\<close>, which hands every node to exactly one parent link, so
  the in-place assignment \<open>root.right = insert(root.right, key)\<close> is the functional
  update of that field. Keys are compared with \<open><\<close> and \<open>==\<close>: a linear order.
\<close>

datatype 'a node = Node (left: "'a node option") (right: "'a node option") (val: 'a)

fun insert_bst :: "('a::linorder) node option \<Rightarrow> 'a \<Rightarrow> 'a node" where
  "insert_bst None key = Node None None key"
| "insert_bst (Some (Node l r v)) key =
     (if v < key then Node l (Some (insert_bst r key)) v
      else Node (Some (insert_bst l key)) r v)"

text \<open>\<open>inorder\<close> prints the keys; the model returns the printed keys in order.\<close>

fun inorder :: "'a node option \<Rightarrow> 'a list" where
  "inorder None = []"
| "inorder (Some (Node l r v)) = inorder l @ [v] @ inorder r"

fun search :: "('a::linorder) node option \<Rightarrow> 'a \<Rightarrow> 'a node option" where
  "search None key = None"
| "search (Some (Node l r v)) key =
     (if v = key then Some (Node l r v)
      else if v < key then search r key
      else search l key)"

text \<open>The caller's \<open>r = insert(r, k)\<close>, once for each key of a sequence.\<close>

fun insert_seq :: "('a::linorder) node option \<Rightarrow> 'a list \<Rightarrow> 'a node option" where
  "insert_seq r [] = r"
| "insert_seq r (k # ks) = insert_seq (Some (insert_bst r k)) ks"

subsection \<open>Insertion and traversal\<close>

lemma mset_inorder_insert:
  "mset (inorder (Some (insert_bst t k))) = add_mset k (mset (inorder t))"
  by (induction t k rule: insert_bst.induct) auto

lemma set_inorder_insert:
  "set (inorder (Some (insert_bst t k))) = Set.insert k (set (inorder t))"
  by (induction t k rule: insert_bst.induct) auto

lemma sorted_inorder_insert:
  "sorted (inorder t) \<Longrightarrow> sorted (inorder (Some (insert_bst t k)))"
  by (induction t k rule: insert_bst.induct) (auto simp: sorted_append set_inorder_insert)

lemma mset_inorder_insert_seq:
  "mset (inorder (insert_seq t ks)) = mset (inorder t) + mset ks"
  by (induction ks arbitrary: t) (auto simp: mset_inorder_insert)

lemma sorted_inorder_insert_seq:
  "sorted (inorder t) \<Longrightarrow> sorted (inorder (insert_seq t ks))"
  by (induction ks arbitrary: t) (auto simp: sorted_inorder_insert)

lemma set_inorder_insert_seq: "set (inorder (insert_seq None ks)) = set ks"
proof -
  have "set_mset (mset (inorder (insert_seq None ks))) = set_mset (mset ks)"
    by (simp add: mset_inorder_insert_seq)
  then show ?thesis by simp
qed

subsection \<open>Search\<close>

lemma search_sorted:
  "sorted (inorder t) \<Longrightarrow> k \<in> set (inorder t) \<Longrightarrow> \<exists>l r. search t k = Some (Node l r k)"
  by (induction t k rule: search.induct) (auto simp: sorted_append)

lemma search_Some_val: "search t k = Some n \<Longrightarrow> val n = k \<and> k \<in> set (inorder t)"
  by (induction t k rule: search.induct) (auto split: if_splits)

lemma search_insert_dup:
  "search t k = Some (Node l r k) \<Longrightarrow>
   search (Some (insert_bst t k)) k = Some (Node (Some (insert_bst l k)) r k)"
  by (induction t k rule: search.induct) (auto split: if_splits)

text \<open>
  Claim C1, as the code has it. In a tree built by repeated \<open>insert\<close>, let \<open>search\<close> find
  the node holding a key \<open>k\<close> that is present. Inserting \<open>k\<close> again leaves that node's
  right subtree as it was and puts the duplicate into its left subtree: the test is
  \<open>root.val < key\<close>, so a key equal to the node's key takes the \<open>else\<close> branch and
  descends leftward.
\<close>

theorem insert_duplicate_descends_left:
  assumes "k \<in> set ks"
  shows "\<exists>l r. search (insert_seq None ks) k = Some (Node l r k) \<and>
           search (Some (insert_bst (insert_seq None ks) k)) k =
             Some (Node (Some (insert_bst l k)) r k)"
proof -
  have srt: "sorted (inorder (insert_seq None ks))"
    using sorted_inorder_insert_seq[of None ks] by simp
  have "k \<in> set (inorder (insert_seq None ks))"
    using assms by (simp add: set_inorder_insert_seq)
  with srt obtain l r where "search (insert_seq None ks) k = Some (Node l r k)"
    using search_sorted by blast
  then show ?thesis using search_insert_dup by blast
qed

theorem insert_duplicate_descends_left_witness:
  "(30::int) \<in> set [50, 30, 20] \<and>
   (\<exists>l r. search (insert_seq None [50, 30, 20]) (30::int) = Some (Node l r 30) \<and>
          search (Some (insert_bst (insert_seq None [50, 30, 20]) 30)) 30 =
            Some (Node (Some (insert_bst l 30)) r 30))"
  using insert_duplicate_descends_left[of "30::int" "[50, 30, 20]"] by simp

text \<open>
  Claim C1 as stated (the duplicate goes to the right subtree) fails: inserting 5 into
  the tree that holds only 5 leaves the root's right link empty and hangs the new node
  on the left link.
\<close>

theorem insert_duplicate_right_counterexample:
  "right (insert_bst (insert_seq None [5::int]) 5) = None \<and>
   left (insert_bst (insert_seq None [5::int]) 5) = Some (Node None None 5) \<and>
   insert_bst (insert_seq None [5::int]) 5 \<noteq> Node None (Some (insert_bst None 5)) 5"
  by simp

text \<open>
  Claim C4. For every sequence of keys inserted into the empty tree, the inorder
  traversal emits the inserted keys as a multiset (duplicates included), in
  non-decreasing order.
\<close>

theorem inorder_insert_seq_sorted_mset:
  "sorted (inorder (insert_seq None ks)) \<and> mset (inorder (insert_seq None ks)) = mset ks"
  using sorted_inorder_insert_seq[of None ks] by (simp add: mset_inorder_insert_seq)

text \<open>
  Claim C5. On a tree built by \<open>insert\<close> from the empty tree, \<open>search\<close> returns a node
  whose key is the searched key exactly when that key was inserted, and \<open>None\<close> exactly
  when it was not.
\<close>

theorem search_found_iff_inserted:
  "(\<exists>n. search (insert_seq None ks) k = Some n \<and> val n = k) = (k \<in> set ks) \<and>
   (search (insert_seq None ks) k = None) = (k \<notin> set ks)"
proof -
  let ?t = "insert_seq None ks"
  have srt: "sorted (inorder ?t)"
    using sorted_inorder_insert_seq[of None ks] by simp
  have mem: "set (inorder ?t) = set ks"
    by (rule set_inorder_insert_seq)
  have found: "\<exists>n. search ?t k = Some n \<and> val n = k" if "k \<in> set ks"
    using search_sorted[OF srt, of k] that mem by auto
  have absent: "search ?t k = None" if "k \<notin> set ks"
  proof (cases "search ?t k")
    case None
    then show ?thesis .
  next
    case (Some n)
    then show ?thesis using search_Some_val[of ?t k n] that mem by simp
  qed
  show ?thesis using found absent by (cases "k \<in> set ks") auto
qed

theorem search_found_iff_inserted_witness:
  "(\<exists>n. search (insert_seq None [50, 30, 20, 40, 70, 60, 80]) (60::int) = Some n \<and> val n = 60) \<and>
   search (insert_seq None [50, 30, 20, 40, 70, 60, 80]) (65::int) = None"
  using search_found_iff_inserted[of "[50, 30, 20, 40, 70, 60, 80]" "60::int"]
        search_found_iff_inserted[of "[50, 30, 20, 40, 70, 60, 80]" "65::int"]
  by simp


section \<open>Python lists\<close>

text \<open>
  Indexing a Python list with an integer: an index from \<open>-len\<close> up to \<open>-1\<close> counts from
  the end, and an index outside \<open>-len .. len - 1\<close> raises \<open>IndexError\<close>. \<open>max\<close> of an
  empty collection raises \<open>ValueError\<close>.
\<close>

datatype py_error = IndexError | ValueError

definition getitem :: "'a list \<Rightarrow> int \<Rightarrow> py_error + 'a" where
  "getitem xs i =
     (if 0 \<le> i \<and> i < int (length xs) then Inr (xs ! nat i)
      else if - int (length xs) \<le> i \<and> i < 0 then Inr (xs ! nat (int (length xs) + i))
      else Inl IndexError)"

definition setitem :: "'a list \<Rightarrow> int \<Rightarrow> 'a \<Rightarrow> py_error + 'a list" where
  "setitem xs i v =
     (if 0 \<le> i \<and> i < int (length xs) then Inr (xs[nat i := v])
      else if - int (length xs) \<le> i \<and> i < 0 then Inr (xs[nat (int (length xs) + i) := v])
      else Inl IndexError)"

lemma getitem_in_range:
  "0 \<le> i \<Longrightarrow> i < int (length xs) \<Longrightarrow> getitem xs i = Inr (xs ! nat i)"
  by (simp add: getitem_def)

lemma setitem_in_range:
  "0 \<le> i \<Longrightarrow> i < int (length xs) \<Longrightarrow> setitem xs i v = Inr (xs[nat i := v])"
  by (simp add: setitem_def)

section \<open>Searching (python/06_Algorithms/03_searching.py)\<close>

text \<open>
  \<open>linear_search\<close> runs \<open>i\<close> over \<open>range(len(arr))\<close>, so \<open>arr[i]\<close> is always in range.
  \<open>binary_search\<close> takes its bounds from the caller; \<open>(high + low) // 2\<close> is floor
  division, as \<open>div\<close> on \<open>int\<close> is.
\<close>

fun linear_search_loop :: "'a list \<Rightarrow> 'a \<Rightarrow> nat list \<Rightarrow> int" where
  "linear_search_loop arr x [] = - 1"
| "linear_search_loop arr x (i # rest) =
     (if arr ! i = x then int i else linear_search_loop arr x rest)"

definition linear_search :: "'a list \<Rightarrow> 'a \<Rightarrow> int" where
  "linear_search arr x = linear_search_loop arr x [0..<length arr]"

function binary_search :: "('a::linorder) list \<Rightarrow> int \<Rightarrow> int \<Rightarrow> 'a \<Rightarrow> py_error + int" where
  "binary_search arr low high x =
     (if high \<ge> low then
        (let mid = (high + low) div 2 in
         case getitem arr mid of
           Inl e \<Rightarrow> Inl e
         | Inr a \<Rightarrow>
             if a = x then Inr mid
             else if a > x then binary_search arr low (mid - 1) x
             else binary_search arr (mid + 1) high x)
      else Inr (- 1))"
  by pat_completeness auto
termination
  by (relation "measure (\<lambda>(arr, low, high, x). nat (high - low + 1))") auto

declare binary_search.simps [simp del]

lemma linear_search_loop_notfound:
  "(linear_search_loop arr x js = - 1) = (\<forall>j \<in> set js. arr ! j \<noteq> x)"
  by (induction js) auto

lemma linear_search_notfound: "(linear_search arr x = - 1) = (x \<notin> set arr)"
  by (auto simp: linear_search_def linear_search_loop_notfound in_set_conv_nth)

lemma binary_search_sound:
  "0 \<le> low \<Longrightarrow> high < int (length arr) \<Longrightarrow>
   \<exists>i. binary_search arr low high x = Inr i \<and>
       (i = - 1 \<or> (low \<le> i \<and> i \<le> high \<and> arr ! nat i = x))"
proof (induction arr low high x rule: binary_search.induct)
  case (1 arr low high x)
  show ?case
  proof (cases "high \<ge> low")
    case False
    then show ?thesis by (simp add: binary_search.simps[of arr low high x])
  next
    case True
    let ?mid = "(high + low) div 2"
    have mid: "low \<le> ?mid" "?mid \<le> high" using True by auto
    have g: "getitem arr ?mid = Inr (arr ! nat ?mid)"
      using mid 1(3,4) by (intro getitem_in_range) auto
    show ?thesis
    proof (cases "arr ! nat ?mid = x")
      case True
      then show ?thesis using mid g \<open>high \<ge> low\<close>
        by (simp add: binary_search.simps[of arr low high x])
    next
      case ne: False
      show ?thesis
      proof (cases "arr ! nat ?mid > x")
        case True
        have "\<exists>i. binary_search arr low (?mid - 1) x = Inr i \<and>
           (i = - 1 \<or> (low \<le> i \<and> i \<le> ?mid - 1 \<and> arr ! nat i = x))"
          using 1(1)[OF \<open>high \<ge> low\<close> refl g ne True] 1(3,4) mid by simp
        then show ?thesis using ne True g mid \<open>high \<ge> low\<close>
          by (auto simp add: binary_search.simps[of arr low high x])
      next
        case False
        have "\<exists>i. binary_search arr (?mid + 1) high x = Inr i \<and>
           (i = - 1 \<or> (?mid + 1 \<le> i \<and> i \<le> high \<and> arr ! nat i = x))"
          using 1(2)[OF \<open>high \<ge> low\<close> refl g ne False] 1(3,4) mid by simp
        then show ?thesis using ne False g mid \<open>high \<ge> low\<close>
          by (auto simp add: binary_search.simps[of arr low high x])
      qed
    qed
  qed
qed

lemma binary_search_complete:
  "sorted arr \<Longrightarrow> 0 \<le> low \<Longrightarrow> high < int (length arr) \<Longrightarrow>
   low \<le> j \<Longrightarrow> j \<le> high \<Longrightarrow> arr ! nat j = x \<Longrightarrow>
   binary_search arr low high x \<noteq> Inr (- 1)"
proof (induction arr low high x arbitrary: j rule: binary_search.induct)
  case (1 arr low high x)
  have hl: "high \<ge> low" using 1 by simp
  let ?mid = "(high + low) div 2"
  have mid: "low \<le> ?mid" "?mid \<le> high" using hl by auto
  have g: "getitem arr ?mid = Inr (arr ! nat ?mid)"
    using mid 1(4,5) by (intro getitem_in_range) auto
  show ?case
  proof (cases "arr ! nat ?mid = x")
    case True
    then show ?thesis using mid g hl 1(4)
      by (simp add: binary_search.simps[of arr low high x])
  next
    case ne: False
    show ?thesis
    proof (cases "arr ! nat ?mid > x")
      case True
      have "j < ?mid"
      proof (rule ccontr)
        assume "\<not> j < ?mid"
        then have "nat ?mid \<le> nat j" by simp
        moreover have "nat j < length arr" using 1(5,7) 1(4,6) by simp
        ultimately have "arr ! nat ?mid \<le> arr ! nat j"
          using 1(3) by (simp add: sorted_nth_mono)
        then show False using True 1(8) by simp
      qed
      then have "binary_search arr low (?mid - 1) x \<noteq> Inr (- 1)"
        using 1(1)[OF hl refl g ne True 1(3) 1(4) _ 1(6) _ 1(8)] mid 1(5) by simp
      then show ?thesis using ne True g hl
        by (simp add: binary_search.simps[of arr low high x])
    next
      case False
      have "?mid < j"
      proof (rule ccontr)
        assume "\<not> ?mid < j"
        then have "nat j \<le> nat ?mid" by simp
        moreover have "nat ?mid < length arr" using 1(5) mid 1(4) by simp
        ultimately have "arr ! nat j \<le> arr ! nat ?mid"
          using 1(3) by (simp add: sorted_nth_mono)
        then show False using False ne 1(8) by simp
      qed
      then have "binary_search arr (?mid + 1) high x \<noteq> Inr (- 1)"
        using 1(2)[OF hl refl g ne False 1(3) _ 1(5) _ 1(7) 1(8)] mid 1(4) by simp
      then show ?thesis using ne False g hl
        by (simp add: binary_search.simps[of arr low high x])
    qed
  qed
qed

text \<open>
  Claim C8. On a list sorted in ascending order, \<open>binary_search(arr, 0, len(arr)-1, x)\<close>
  returns \<open>-1\<close> exactly when \<open>linear_search(arr, x)\<close> returns \<open>-1\<close>, and it returns a
  valid index that holds \<open>x\<close> exactly when \<open>linear_search\<close> finds one. It never raises.
\<close>

theorem binary_search_agrees_with_linear_search:
  assumes "sorted arr"
  shows "(binary_search arr 0 (int (length arr) - 1) x = Inr (- 1)) = (linear_search arr x = - 1) \<and>
         (\<exists>i. binary_search arr 0 (int (length arr) - 1) x = Inr i \<and>
              0 \<le> i \<and> i < int (length arr) \<and> arr ! nat i = x) = (linear_search arr x \<noteq> - 1)"
proof -
  let ?b = "binary_search arr 0 (int (length arr) - 1) x"
  obtain i where i: "?b = Inr i"
    "i = - 1 \<or> (0 \<le> i \<and> i \<le> int (length arr) - 1 \<and> arr ! nat i = x)"
    using binary_search_sound[of 0 "int (length arr) - 1" arr x] by auto
  show ?thesis
  proof (cases "x \<in> set arr")
    case True
    then obtain j where j: "j < length arr" "arr ! j = x"
      by (auto simp: in_set_conv_nth)
    have "?b \<noteq> Inr (- 1)"
      using binary_search_complete[OF assms, of 0 "int (length arr) - 1" "int j" x] j by simp
    then show ?thesis using i True by (auto simp: linear_search_notfound)
  next
    case False
    have "i = - 1"
    proof (rule ccontr)
      assume "i \<noteq> - 1"
      then have "0 \<le> i" "nat i < length arr" "arr ! nat i = x" using i(2) by auto
      then show False using False nth_mem by blast
    qed
    then show ?thesis using i False by (auto simp: linear_search_notfound)
  qed
qed

theorem binary_search_agrees_with_linear_search_witness:
  "sorted [2, 3, 3, 3, 40::int] \<and>
   binary_search [2, 3, 3, 3, 40::int] 0 4 3 = Inr 2 \<and>
   linear_search [2, 3, 3, 3, 40::int] 3 = 1 \<and>
   binary_search [2, 3, 3, 3, 40::int] 0 4 5 = Inr (- 1) \<and>
   linear_search [2, 3, 3, 3, 40::int] 5 = - 1"
proof -
  have s: "sorted [2, 3, 3, 3, 40::int]" by simp
  have b: "binary_search [2, 3, 3, 3, 40::int] 0 4 3 = Inr 2"
    by (simp add: binary_search.simps getitem_def)
  have l: "linear_search [2, 3, 3, 3, 40::int] 3 = 1"
    by (simp add: linear_search_def upt_rec)
  have n: "linear_search [2, 3, 3, 3, 40::int] 5 = - 1"
    by (simp add: linear_search_def upt_rec)
  show ?thesis
    using binary_search_agrees_with_linear_search[OF s, of 5] s b l n by simp
qed

lemma linear_search_loop_first:
  "(linear_search_loop arr x js = - 1 \<and> (\<forall>j \<in> set js. arr ! j \<noteq> x)) \<or>
   (\<exists>pre i post. js = pre @ i # post \<and> linear_search_loop arr x js = int i \<and>
        arr ! i = x \<and> (\<forall>j \<in> set pre. arr ! j \<noteq> x))"
proof (induction js)
  case Nil
  then show ?case by simp
next
  case (Cons j js)
  show ?case
  proof (cases "arr ! j = x")
    case True
    then have "j # js = [] @ j # js \<and> linear_search_loop arr x (j # js) = int j \<and>
        arr ! j = x \<and> (\<forall>k \<in> set []. arr ! k \<noteq> x)" by simp
    then show ?thesis by blast
  next
    case False
    from Cons show ?thesis
    proof (elim disjE exE conjE)
      assume "linear_search_loop arr x js = - 1" "\<forall>j \<in> set js. arr ! j \<noteq> x"
      then show ?thesis using False by simp
    next
      fix pre i post
      assume a: "js = pre @ i # post" "linear_search_loop arr x js = int i" "arr ! i = x"
        "\<forall>j \<in> set pre. arr ! j \<noteq> x"
      then have "j # js = (j # pre) @ i # post \<and> linear_search_loop arr x (j # js) = int i \<and>
        arr ! i = x \<and> (\<forall>k \<in> set (j # pre). arr ! k \<noteq> x)"
        using False by simp
      then show ?thesis by blast
    qed
  qed
qed

lemma upt_split:
  assumes "[0..<n] = pre @ i # post"
  shows "i < n \<and> pre = [0..<i]"
proof -
  have len: "length pre < n"
    using arg_cong[OF assms, of length] by simp
  have "[0..<n] ! length pre = i" using assms by simp
  then have i: "i = length pre" using len by simp
  have "take (length pre) [0..<n] = pre" using assms by simp
  then have "pre = [0..<length pre]" using len by (simp add: take_upt)
  then show ?thesis using i len by simp
qed

text \<open>
  \<open>linear_search\<close> returns \<open>-1\<close> when the target does not occur, and otherwise the
  first index that holds it.
\<close>

theorem linear_search_first_match:
  "(x \<notin> set arr \<and> linear_search arr x = - 1) \<or>
   (\<exists>i. i < length arr \<and> linear_search arr x = int i \<and> arr ! i = x \<and> x \<notin> set (take i arr))"
proof (cases "x \<in> set arr")
  case False
  then show ?thesis by (simp add: linear_search_notfound)
next
  case True
  then have "linear_search arr x \<noteq> - 1" by (simp add: linear_search_notfound)
  then obtain pre i post where p: "[0..<length arr] = pre @ i # post"
    "linear_search arr x = int i" "arr ! i = x" "\<forall>j \<in> set pre. arr ! j \<noteq> x"
    using linear_search_loop_first[of arr x "[0..<length arr]"]
    unfolding linear_search_def by blast
  have i: "i < length arr" "pre = [0..<i]" using upt_split[OF p(1)] by simp_all
  have "x \<notin> set (take i arr)"
  proof
    assume "x \<in> set (take i arr)"
    then obtain k where "k < length (take i arr)" "take i arr ! k = x"
      by (auto simp: in_set_conv_nth)
    then have "k < i" "arr ! k = x" using i(1) by simp_all
    then show False using p(4) i(2) by simp
  qed
  then show ?thesis using i(1) p(2,3) by blast
qed

section \<open>Sorting (python/06_Algorithms/02_sorting.py)\<close>

text \<open>
  The sorts mutate the list they are given; each model returns the list as the call
  leaves it. Elements are compared with Python's operators, which dispatch on the
  elements (\<open>__gt__\<close> in \<open>bubble_sort\<close>, \<open>__lt__\<close> in \<open>merge_sort\<close>, \<open>__le__\<close> in
  \<open>partition\<close>), so each model takes the comparison it uses as an argument; for elements
  of a linear order these are \<open>(>)\<close>, \<open>(<)\<close> and \<open>(\<le>)\<close>.
\<close>

subsection \<open>Bubble sort\<close>

text \<open>
  \<open>j\<close> runs over \<open>range(0, n-i-1)\<close> with \<open>i < n\<close>, so \<open>j + 1 < n\<close> and both reads and both
  writes of the swap are in range. The tuple assignment reads \<open>arr[j+1]\<close> and \<open>arr[j]\<close>
  before it writes.
\<close>

fun bubble_inner :: "('a \<Rightarrow> 'a \<Rightarrow> bool) \<Rightarrow> 'a list \<Rightarrow> nat list \<Rightarrow> 'a list" where
  "bubble_inner gt arr [] = arr"
| "bubble_inner gt arr (j # js) =
     bubble_inner gt
       (if gt (arr ! j) (arr ! (j + 1)) then arr[j := arr ! (j + 1), j + 1 := arr ! j] else arr)
       js"

fun bubble_outer :: "('a \<Rightarrow> 'a \<Rightarrow> bool) \<Rightarrow> 'a list \<Rightarrow> nat \<Rightarrow> nat list \<Rightarrow> 'a list" where
  "bubble_outer gt arr n [] = arr"
| "bubble_outer gt arr n (i # is) =
     bubble_outer gt (bubble_inner gt arr [0..<n - i - 1]) n is"

definition bubble_sort :: "('a \<Rightarrow> 'a \<Rightarrow> bool) \<Rightarrow> 'a list \<Rightarrow> 'a list" where
  "bubble_sort gt arr = (let n = length arr in bubble_outer gt arr n [0..<n])"


lemma bubble_inner_pass:
  fixes a :: "('a::linorder) list"
  shows "j \<le> m \<Longrightarrow> m < length a \<Longrightarrow> \<forall>x \<in> set (take j a). x \<le> a ! j \<Longrightarrow>
     length (bubble_inner (>) a [j..<m]) = length a \<and>
     drop (Suc m) (bubble_inner (>) a [j..<m]) = drop (Suc m) a \<and>
     mset (take (Suc m) (bubble_inner (>) a [j..<m])) = mset (take (Suc m) a) \<and>
     (\<forall>x \<in> set (take (Suc m) (bubble_inner (>) a [j..<m])). x \<le> bubble_inner (>) a [j..<m] ! m)"
proof (induction "m - j" arbitrary: a j)
  case 0
  then have "j = m" by simp
  have "take (Suc m) a = take m a @ [a ! m]"
    using 0 by (simp add: take_Suc_conv_app_nth)
  then show ?case using 0 \<open>j = m\<close> by auto
next
  case (Suc d)
  then have jm: "j < m" by simp
  let ?a' = "if a ! j > a ! (j + 1) then a[j := a ! (j + 1), j + 1 := a ! j] else a"
  have step: "bubble_inner (>) a [j..<m] = bubble_inner (>) ?a' [Suc j..<m]"
    using jm by (simp add: upt_conv_Cons)
  have len: "length ?a' = length a" by simp
  have tk: "take (Suc j) ?a' = (if a ! j > a ! (j + 1) then (take j a) @ [a ! (j+1)] else take j a @ [a ! j])"
    using jm Suc.prems by (auto simp: take_Suc_conv_app_nth)
  have nxt: "?a' ! Suc j = (if a ! j > a ! (j + 1) then a ! j else a ! (j+1))"
    using jm Suc.prems by auto
  have mx: "\<forall>x \<in> set (take (Suc j) ?a'). x \<le> ?a' ! Suc j"
    using Suc.prems(3) tk nxt by (auto simp del: take_Suc_conv_app_nth) 
  have IH: "length (bubble_inner (>) ?a' [Suc j..<m]) = length ?a' \<and>
     drop (Suc m) (bubble_inner (>) ?a' [Suc j..<m]) = drop (Suc m) ?a' \<and>
     mset (take (Suc m) (bubble_inner (>) ?a' [Suc j..<m])) = mset (take (Suc m) ?a') \<and>
     (\<forall>x \<in> set (take (Suc m) (bubble_inner (>) ?a' [Suc j..<m])). x \<le> bubble_inner (>) ?a' [Suc j..<m] ! m)"
    using Suc.hyps(1)[of "Suc j" ?a'] Suc.hyps(2) jm Suc.prems(2) mx len by auto
  have dr: "drop (Suc m) ?a' = drop (Suc m) a" using jm by simp
  have ms: "mset (take (Suc m) ?a') = mset (take (Suc m) a)"
  proof (cases "a ! j > a ! (j + 1)")
    case True
    have "take (Suc m) (a[j := a ! (j + 1), j + 1 := a ! j]) = (take (Suc m) a)[j := (take (Suc m) a) ! (j + 1), j + 1 := (take (Suc m) a) ! j]"
      using jm by (simp add: take_update_swap)
    moreover have "mset ((take (Suc m) a)[j := (take (Suc m) a) ! (j + 1), j + 1 := (take (Suc m) a) ! j]) = mset (take (Suc m) a)"
      using jm Suc.prems(2) by (intro mset_swap) auto
    ultimately show ?thesis using True by simp
  next
    case False
    then show ?thesis by simp
  qed
  show ?case unfolding step using IH dr ms len by simp
qed


lemma bubble_outer_sorted:
  fixes a :: "('a::linorder) list"
  shows "k \<le> n \<Longrightarrow> length a = n \<Longrightarrow> sorted (drop (n - k) a) \<Longrightarrow>
     \<forall>x \<in> set (take (n - k) a). \<forall>y \<in> set (drop (n - k) a). x \<le> y \<Longrightarrow>
     sorted (bubble_outer (>) a n [k..<n]) \<and> mset (bubble_outer (>) a n [k..<n]) = mset a"
proof (induction "n - k" arbitrary: a k)
  case 0
  then show ?case by simp
next
  case (Suc d)
  then have kn: "k < n" by simp
  define m where "m = n - k - 1"
  define r where "r = bubble_inner (>) a [0..<m]"
  have m: "m < length a" "Suc m = n - k" "n - Suc k = m"
    using kn Suc.prems(2) by (auto simp: m_def)
  have step: "bubble_outer (>) a n [k..<n] = bubble_outer (>) r n [Suc k..<n]"
    using kn by (simp add: upt_conv_Cons r_def m_def)
  have pass: "length r = length a" "drop (Suc m) r = drop (Suc m) a"
    "mset (take (Suc m) r) = mset (take (Suc m) a)"
    "\<forall>x \<in> set (take (Suc m) r). x \<le> r ! m"
    using bubble_inner_pass[of 0 m a] m(1) by (simp_all add: r_def)
  have sets: "set (take (Suc m) r) = set (take (Suc m) a)"
    using pass(3) by (metis set_mset_mset)
  have rm: "r ! m \<in> set (take (Suc m) r)"
    using m(1) pass(1) by (simp add: take_Suc_conv_app_nth)
  have dm: "drop m r = r ! m # drop (Suc m) a"
    using m(1) pass(1,2) by (metis Cons_nth_drop_Suc)
  have old: "\<forall>x \<in> set (take (Suc m) a). \<forall>y \<in> set (drop (Suc m) a). x \<le> y"
    using Suc.prems(4) m(2) by simp
  have s1: "sorted (drop (n - Suc k) r)"
    using dm m Suc.prems(3) old rm sets by auto
  have sub: "set (take m r) \<subseteq> set (take (Suc m) r)"
    by (rule set_take_subset_set_take) simp
  have s2: "\<forall>x \<in> set (take (n - Suc k) r). \<forall>y \<in> set (drop (n - Suc k) r). x \<le> y"
    using dm m(3) sub pass(4) old sets by auto
  have ms: "mset r = mset a"
  proof -
    have "mset r = mset (take (Suc m) r) + mset (drop (Suc m) r)"
      by (metis append_take_drop_id mset_append)
    also have "\<dots> = mset (take (Suc m) a) + mset (drop (Suc m) a)"
      using pass(2,3) by simp
    also have "\<dots> = mset a"
      by (metis append_take_drop_id mset_append)
    finally show ?thesis .
  qed
  have "sorted (bubble_outer (>) r n [Suc k..<n]) \<and> mset (bubble_outer (>) r n [Suc k..<n]) = mset r"
    using Suc.hyps(1)[of "Suc k" r] Suc.hyps(2) kn pass(1) Suc.prems(2) s1 s2 by simp
  then show ?case unfolding step using ms by simp
qed

lemma bubble_sort_sorted_mset:
  fixes arr :: "('a::linorder) list"
  shows "sorted (bubble_sort (>) arr) \<and> mset (bubble_sort (>) arr) = mset arr"
  using bubble_outer_sorted[of 0 "length arr" arr] by (simp add: bubble_sort_def Let_def)

subsection \<open>Merge sort\<close>

text \<open>
  \<open>L\<close> and \<open>R\<close> are copies (slices) of the two halves, sorted by the recursive calls.
  The three \<open>while\<close> loops write \<open>arr[k]\<close> with \<open>k = i + j < len(L) + len(R) = len(arr)\<close>,
  so every write is in range (\<open>merge_phase_result\<close> below rests on exactly this).
\<close>

function merge_loop1 ::
  "('a \<Rightarrow> 'a \<Rightarrow> bool) \<Rightarrow> 'a list \<Rightarrow> 'a list \<Rightarrow> 'a list \<times> nat \<times> nat \<times> nat \<Rightarrow> 'a list \<times> nat \<times> nat \<times> nat" where
  "merge_loop1 lt L R (arr, i, j, k) =
     (if i < length L \<and> j < length R then
        (if lt (L ! i) (R ! j) then merge_loop1 lt L R (arr[k := L ! i], i + 1, j, k + 1)
         else merge_loop1 lt L R (arr[k := R ! j], i, j + 1, k + 1))
      else (arr, i, j, k))"
  by pat_completeness auto
termination
  by (relation "measure (\<lambda>(lt, L, R, arr, i, j, k). (length L - i) + (length R - j))") auto

function merge_loop2 :: "'a list \<Rightarrow> 'a list \<times> nat \<times> nat \<Rightarrow> 'a list \<times> nat \<times> nat" where
  "merge_loop2 L (arr, i, k) =
     (if i < length L then merge_loop2 L (arr[k := L ! i], i + 1, k + 1) else (arr, i, k))"
  by pat_completeness auto
termination
  by (relation "measure (\<lambda>(L, arr, i, k). length L - i)") auto

function merge_loop3 :: "'a list \<Rightarrow> 'a list \<times> nat \<times> nat \<Rightarrow> 'a list \<times> nat \<times> nat" where
  "merge_loop3 R (arr, j, k) =
     (if j < length R then merge_loop3 R (arr[k := R ! j], j + 1, k + 1) else (arr, j, k))"
  by pat_completeness auto
termination
  by (relation "measure (\<lambda>(R, arr, j, k). length R - j)") auto

declare merge_loop1.simps [simp del] merge_loop2.simps [simp del] merge_loop3.simps [simp del]

function merge_sort :: "('a \<Rightarrow> 'a \<Rightarrow> bool) \<Rightarrow> 'a list \<Rightarrow> 'a list" where
  "merge_sort lt arr =
     (if length arr > 1 then
        (let mid = length arr div 2;
             L = merge_sort lt (take mid arr);
             R = merge_sort lt (drop mid arr);
             (arr, i, j, k) = merge_loop1 lt L R (arr, 0, 0, 0);
             (arr, i, k) = merge_loop2 L (arr, i, k);
             (arr, j, k) = merge_loop3 R (arr, j, k)
         in arr)
      else arr)"
  by pat_completeness auto
termination
  by (relation "measure (\<lambda>(lt, arr). length arr)") auto

declare merge_sort.simps [simp del]


text \<open>The merge as a function on lists: what the three loops compute together.\<close>

fun merge_fn :: "('a \<Rightarrow> 'a \<Rightarrow> bool) \<Rightarrow> 'a list \<Rightarrow> 'a list \<Rightarrow> 'a list" where
  "merge_fn lt [] ys = ys"
| "merge_fn lt xs [] = xs"
| "merge_fn lt (x # xs) (y # ys) =
     (if lt x y then x # merge_fn lt xs (y # ys) else y # merge_fn lt (x # xs) ys)"

lemma merge_loop2_result:
  "k + (length L - i) \<le> length arr \<Longrightarrow>
   fst (merge_loop2 L (arr, i, k)) = take k arr @ drop i L @ drop (k + (length L - i)) arr"
proof (induction L "(arr, i, k)" arbitrary: arr i k rule: merge_loop2.induct)
  case (1 L arr i k)
  show ?case
  proof (cases "i < length L")
    case False
    then show ?thesis by (simp add: merge_loop2.simps[of L arr i k])
  next
    case True
    have k: "k < length arr" using True 1(2) by simp
    have "fst (merge_loop2 L (arr[k := L ! i], i + 1, k + 1)) =
       take (k + 1) (arr[k := L ! i]) @ drop (i + 1) L @ drop (k + 1 + (length L - (i + 1))) (arr[k := L ! i])"
      using 1(1)[OF True] 1(2) True by simp
    also have "take (k + 1) (arr[k := L ! i]) = take k arr @ [L ! i]"
      using k by (simp add: take_Suc_conv_app_nth)
    also have "drop (k + 1 + (length L - (i + 1))) (arr[k := L ! i]) = drop (k + (length L - i)) arr"
    proof -
      have "k + 1 + (length L - (i + 1)) = k + (length L - i)" using True by arith
      then show ?thesis using True by simp
    qed
    finally show ?thesis using True
      by (simp add: merge_loop2.simps[of L arr i k] Cons_nth_drop_Suc)
  qed
qed

lemma merge_loop3_result:
  "k + (length R - j) \<le> length arr \<Longrightarrow>
   fst (merge_loop3 R (arr, j, k)) = take k arr @ drop j R @ drop (k + (length R - j)) arr"
proof (induction R "(arr, j, k)" arbitrary: arr j k rule: merge_loop3.induct)
  case (1 R arr j k)
  show ?case
  proof (cases "j < length R")
    case False
    then show ?thesis by (simp add: merge_loop3.simps[of R arr j k])
  next
    case True
    have k: "k < length arr" using True 1(2) by simp
    have "fst (merge_loop3 R (arr[k := R ! j], j + 1, k + 1)) =
       take (k + 1) (arr[k := R ! j]) @ drop (j + 1) R @ drop (k + 1 + (length R - (j + 1))) (arr[k := R ! j])"
      using 1(1)[OF True] 1(2) True by simp
    also have "take (k + 1) (arr[k := R ! j]) = take k arr @ [R ! j]"
      using k by (simp add: take_Suc_conv_app_nth)
    also have "drop (k + 1 + (length R - (j + 1))) (arr[k := R ! j]) = drop (k + (length R - j)) arr"
    proof -
      have "k + 1 + (length R - (j + 1)) = k + (length R - j)" using True by arith
      then show ?thesis using True by simp
    qed
    finally show ?thesis using True
      by (simp add: merge_loop3.simps[of R arr j k] Cons_nth_drop_Suc)
  qed
qed


lemma merge_loop2_index:
  "snd (merge_loop2 L (arr, i, k)) = (max i (length L), k + (length L - i))"
proof (induction L "(arr, i, k)" arbitrary: arr i k rule: merge_loop2.induct)
  case (1 L arr i k)
  show ?case
  proof (cases "i < length L")
    case False
    then show ?thesis by (simp add: merge_loop2.simps[of L arr i k])
  next
    case True
    then show ?thesis using 1[OF True]
      by (simp add: merge_loop2.simps[of L arr i k])
  qed
qed

lemma merge_fn_Nil2 [simp]: "merge_fn lt xs [] = xs"
  by (cases xs) auto

text \<open>The three loops of \<open>merge_sort\<close> in sequence, from a given loop state.\<close>

definition merge_phase :: "('a \<Rightarrow> 'a \<Rightarrow> bool) \<Rightarrow> 'a list \<Rightarrow> 'a list \<Rightarrow> 'a list \<times> nat \<times> nat \<times> nat \<Rightarrow> 'a list" where
  "merge_phase lt L R st =
     (let (arr, i, j, k) = merge_loop1 lt L R st;
          (arr, i, k) = merge_loop2 L (arr, i, k);
          (arr, j, k) = merge_loop3 R (arr, j, k)
      in arr)"

lemma merge_phase_base:
  assumes "\<not> (i < length L \<and> j < length R)" "k = i + j" "i \<le> length L" "j \<le> length R"
    "length arr = length L + length R"
  shows "merge_phase lt L R (arr, i, j, k) = take k arr @ drop i L @ drop j R"
proof -
  obtain arr2 i2 k2 where l2: "merge_loop2 L (arr, i, k) = (arr2, i2, k2)"
    by (cases "merge_loop2 L (arr, i, k)")
  have k2: "k2 = k + (length L - i)"
    using merge_loop2_index[of L arr i k] l2 by simp
  have arr2: "arr2 = take k arr @ drop i L @ drop (k + (length L - i)) arr"
    using merge_loop2_result[of k L i arr] l2 assms by simp
  have len2: "length arr2 = length arr"
    using assms by (simp add: arr2)
  have tk: "take k2 arr2 = take k arr @ drop i L"
    using assms by (simp add: arr2 k2)
  have "fst (merge_loop3 R (arr2, j, k2)) = take k2 arr2 @ drop j R @ drop (k2 + (length R - j)) arr2"
    using assms len2 k2 by (intro merge_loop3_result) simp
  moreover have "drop (k2 + (length R - j)) arr2 = []"
    using assms len2 k2 by simp
  ultimately have "fst (merge_loop3 R (arr2, j, k2)) = take k arr @ drop i L @ drop j R"
    using tk by simp
  moreover have "merge_loop1 lt L R (arr, i, j, k) = (arr, i, j, k)"
    using assms(1) by (auto simp: merge_loop1.simps[of lt L R arr i j k])
  ultimately show ?thesis
    using l2 by (auto simp: merge_phase_def split: prod.splits)
qed

lemma merge_phase_result:
  "k = i + j \<Longrightarrow> i \<le> length L \<Longrightarrow> j \<le> length R \<Longrightarrow> length arr = length L + length R \<Longrightarrow>
   merge_phase lt L R (arr, i, j, k) = take k arr @ merge_fn lt (drop i L) (drop j R)"
proof (induction lt L R "(arr, i, j, k)" arbitrary: arr i j k rule: merge_loop1.induct)
  case (1 lt L R arr i j k)
  show ?case
  proof (cases "i < length L \<and> j < length R")
    case False
    have "merge_fn lt (drop i L) (drop j R) = drop i L @ drop j R"
    proof (cases "i < length L")
      case True
      then have "drop j R = []" using False by simp
      then show ?thesis by simp
    next
      case False
      then have "drop i L = []" by simp
      then show ?thesis by simp
    qed
    then show ?thesis using merge_phase_base[OF False 1(3,4,5,6)] by simp
  next
    case True
    have dl: "drop i L = L ! i # drop (Suc i) L" and dr: "drop j R = R ! j # drop (Suc j) R"
      using True by (simp_all add: Cons_nth_drop_Suc)
    have k: "k < length arr" using True 1(3,6) by simp
    show ?thesis
    proof (cases "lt (L ! i) (R ! j)")
      case lt: True
      have "merge_phase lt L R (arr, i, j, k) = merge_phase lt L R (arr[k := L ! i], i + 1, j, k + 1)"
        using True lt by (simp add: merge_phase_def merge_loop1.simps[of lt L R arr i j k])
      also have "\<dots> = take (k + 1) (arr[k := L ! i]) @ merge_fn lt (drop (i + 1) L) (drop j R)"
        using 1(1)[OF True lt] 1(3,4,5,6) True by simp
      also have "take (k + 1) (arr[k := L ! i]) = take k arr @ [L ! i]"
        using k by (simp add: take_Suc_conv_app_nth)
      finally show ?thesis using lt dl dr by simp
    next
      case nlt: False
      have "merge_phase lt L R (arr, i, j, k) = merge_phase lt L R (arr[k := R ! j], i, j + 1, k + 1)"
        using True nlt by (simp add: merge_phase_def merge_loop1.simps[of lt L R arr i j k])
      also have "\<dots> = take (k + 1) (arr[k := R ! j]) @ merge_fn lt (drop i L) (drop (j + 1) R)"
        using 1(2)[OF True nlt] 1(3,4,5,6) True by simp
      also have "take (k + 1) (arr[k := R ! j]) = take k arr @ [R ! j]"
        using k by (simp add: take_Suc_conv_app_nth)
      finally show ?thesis using nlt dl dr by simp
    qed
  qed
qed

lemma length_merge_fn [simp]: "length (merge_fn lt xs ys) = length xs + length ys"
  by (induction lt xs ys rule: merge_fn.induct) auto

lemma merge_sort_unfold:
  "merge_sort lt arr =
     (if length arr > 1 then
        merge_fn lt (merge_sort lt (take (length arr div 2) arr))
                    (merge_sort lt (drop (length arr div 2) arr))
      else arr) \<and> length (merge_sort lt arr) = length arr"
proof (induction lt arr rule: merge_sort.induct)
  case (1 lt arr)
  show ?case
  proof (cases "length arr > 1")
    case False
    then show ?thesis by (simp add: merge_sort.simps[of lt arr])
  next
    case True
    let ?mid = "length arr div 2"
    let ?L = "merge_sort lt (take ?mid arr)"
    let ?R = "merge_sort lt (drop ?mid arr)"
    have lenL: "length ?L = ?mid" using 1(1)[OF True refl, THEN conjunct2] by simp
    have lenR: "length ?R = length arr - ?mid" using 1(2)[OF True refl refl, THEN conjunct2] by simp
    have "merge_sort lt arr = merge_phase lt ?L ?R (arr, 0, 0, 0)"
      using True by (simp add: merge_sort.simps[of lt arr] merge_phase_def Let_def)
    also have "\<dots> = merge_fn lt ?L ?R"
      using merge_phase_result[of 0 0 0 ?L ?R arr lt] lenL lenR by simp
    finally show ?thesis using True lenL lenR by simp
  qed
qed


lemma mset_merge_fn: "mset (merge_fn lt xs ys) = mset xs + mset ys"
  by (induction lt xs ys rule: merge_fn.induct) auto

lemma set_merge_fn: "set (merge_fn lt xs ys) = set xs \<union> set ys"
  by (induction lt xs ys rule: merge_fn.induct) auto

lemma sorted_key_merge_fn:
  fixes key :: "'a \<Rightarrow> 'k::linorder"
  shows "sorted (map key xs) \<Longrightarrow> sorted (map key ys) \<Longrightarrow>
         sorted (map key (merge_fn (\<lambda>a b. key a < key b) xs ys))"
  by (induction "\<lambda>a b. key a < key b" xs ys rule: merge_fn.induct)
     (auto simp: set_merge_fn)

lemma filter_key_merge_fn:
  fixes key :: "'a \<Rightarrow> 'k::linorder"
  shows "sorted (map key xs) \<Longrightarrow> sorted (map key ys) \<Longrightarrow>
         filter (\<lambda>x. key x = c) (merge_fn (\<lambda>a b. key a < key b) xs ys) =
         filter (\<lambda>x. key x = c) ys @ filter (\<lambda>x. key x = c) xs"
proof (induction "\<lambda>a b. key a < key b" xs ys rule: merge_fn.induct)
  case (3 x xs y ys)
  show ?case
  proof (cases "key x < key y")
    case True
    have "filter (\<lambda>x. key x = c) (y # ys) = []" if "key x = c"
      using 3(4) True that by (auto simp: filter_empty_conv)
    then show ?thesis using 3 True by auto
  next
    case False
    then show ?thesis using 3 by auto
  qed
qed auto

lemma merge_sort_key:
  fixes key :: "'a \<Rightarrow> 'k::linorder"
  shows "sorted (map key (merge_sort (\<lambda>a b. key a < key b) arr)) \<and>
         mset (merge_sort (\<lambda>a b. key a < key b) arr) = mset arr \<and>
         filter (\<lambda>x. key x = c) (merge_sort (\<lambda>a b. key a < key b) arr) =
           rev (filter (\<lambda>x. key x = c) arr)"
proof (induction "\<lambda>a b. key a < key b" arr rule: merge_sort.induct)
  case (1 arr)
  let ?lt = "\<lambda>a b. key a < key b"
  show ?case
  proof (cases "length arr > 1")
    case False
    then have "arr = [] \<or> (\<exists>x. arr = [x])"
      by (cases arr) auto
    moreover have "merge_sort ?lt arr = arr"
      using False merge_sort_unfold[of ?lt arr] by simp
    ultimately show ?thesis by auto
  next
    case True
    let ?mid = "length arr div 2"
    let ?L = "merge_sort ?lt (take ?mid arr)"
    let ?R = "merge_sort ?lt (drop ?mid arr)"
    have eq: "merge_sort ?lt arr = merge_fn ?lt ?L ?R"
      using True merge_sort_unfold[of ?lt arr] by simp
    note L = 1(1)[OF True refl]
    note R = 1(2)[OF True refl refl]
    have "mset (merge_sort ?lt arr) = mset (take ?mid arr) + mset (drop ?mid arr)"
      using L R by (simp add: eq mset_merge_fn)
    also have "\<dots> = mset arr"
      by (metis append_take_drop_id mset_append)
    finally have ms: "mset (merge_sort ?lt arr) = mset arr" .
    have "filter (\<lambda>x. key x = c) (merge_sort ?lt arr) =
          rev (filter (\<lambda>x. key x = c) (drop ?mid arr)) @ rev (filter (\<lambda>x. key x = c) (take ?mid arr))"
      using L R by (simp add: eq filter_key_merge_fn)
    also have "\<dots> = rev (filter (\<lambda>x. key x = c) (take ?mid arr @ drop ?mid arr))"
      by (simp only: filter_append rev_append)
    finally have fl: "filter (\<lambda>x. key x = c) (merge_sort ?lt arr) = rev (filter (\<lambda>x. key x = c) arr)"
      by simp
    show ?thesis using L R ms fl by (simp add: eq sorted_key_merge_fn)
  qed
qed

lemma merge_sort_sorted_mset:
  fixes arr :: "('a::linorder) list"
  shows "sorted (merge_sort (<) arr) \<and> mset (merge_sort (<) arr) = mset arr"
  using merge_sort_key[of "\<lambda>x. x" arr] by simp

subsection \<open>Quick sort\<close>

text \<open>
  \<open>partition\<close> and \<open>quick_sort\<close> index the list with bounds that the caller supplies, so
  every read and write goes through \<open>getitem\<close> and \<open>setitem\<close> and may raise. The swap
  \<open>arr[i], arr[j] = arr[j], arr[i]\<close> reads \<open>arr[j]\<close>, then \<open>arr[i]\<close>, then writes
  \<open>arr[i]\<close>, then \<open>arr[j]\<close>. \<open>quick_sort\<close> returns the list only when its length is 1; the
  model returns the list as the call leaves it in every case.
\<close>

definition swap_items :: "'a list \<Rightarrow> int \<Rightarrow> int \<Rightarrow> py_error + 'a list" where
  "swap_items arr i j =
     (case getitem arr j of
        Inl e \<Rightarrow> Inl e
      | Inr x \<Rightarrow>
          (case getitem arr i of
             Inl e \<Rightarrow> Inl e
           | Inr y \<Rightarrow>
               (case setitem arr i x of
                  Inl e \<Rightarrow> Inl e
                | Inr arr1 \<Rightarrow> setitem arr1 j y)))"

function partition_loop ::
  "('a \<Rightarrow> 'a \<Rightarrow> bool) \<Rightarrow> 'a \<Rightarrow> int \<Rightarrow> 'a list \<times> int \<times> int \<Rightarrow> py_error + 'a list \<times> int" where
  "partition_loop le pivot high (arr, i, j) =
     (if j < high then
        (case getitem arr j of
           Inl e \<Rightarrow> Inl e
         | Inr a \<Rightarrow>
             if le a pivot then
               (case swap_items arr (i + 1) j of
                  Inl e \<Rightarrow> Inl e
                | Inr arr1 \<Rightarrow> partition_loop le pivot high (arr1, i + 1, j + 1))
             else partition_loop le pivot high (arr, i, j + 1))
      else Inr (arr, i))"
  by pat_completeness auto
termination
  by (relation "measure (\<lambda>(le, pivot, high, arr, i, j). nat (high - j))") auto

declare partition_loop.simps [simp del]

definition partition_qs ::
  "('a \<Rightarrow> 'a \<Rightarrow> bool) \<Rightarrow> 'a list \<Rightarrow> int \<Rightarrow> int \<Rightarrow> py_error + 'a list \<times> int" where
  "partition_qs le arr low high =
     (let i = low - 1 in
      case getitem arr high of
        Inl e \<Rightarrow> Inl e
      | Inr pivot \<Rightarrow>
          (case partition_loop le pivot high (arr, i, low) of
             Inl e \<Rightarrow> Inl e
           | Inr (arr1, i1) \<Rightarrow>
               (case swap_items arr1 (i1 + 1) high of
                  Inl e \<Rightarrow> Inl e
                | Inr arr2 \<Rightarrow> Inr (arr2, i1 + 1))))"

lemma partition_loop_index:
  "partition_loop le pivot high (arr, i, j) = Inr (arr', i') \<Longrightarrow> j \<le> high \<Longrightarrow>
   i \<le> i' \<and> i' - i \<le> high - j"
proof (induction le pivot high "(arr, i, j)" arbitrary: arr i j rule: partition_loop.induct)
  case (1 le pivot high arr i j)
  note res = 1(3) and jh = 1(4)
  show ?case
  proof (cases "j < high")
    case False
    then have "partition_loop le pivot high (arr, i, j) = Inr (arr, i)"
      by (simp add: partition_loop.simps[of le pivot high arr i j])
    then show ?thesis using res jh by simp
  next
    case True
    show ?thesis
    proof (cases "getitem arr j")
      case (Inl e)
      then show ?thesis using res True
        by (simp add: partition_loop.simps[of le pivot high arr i j])
    next
      case (Inr a)
      show ?thesis
      proof (cases "le a pivot")
        case le: True
        show ?thesis
        proof (cases "swap_items arr (i + 1) j")
          case (Inl e)
          then show ?thesis using res True Inr le
            by (simp add: partition_loop.simps[of le pivot high arr i j])
        next
          case sw: (Inr arr1)
          have "partition_loop le pivot high (arr1, i + 1, j + 1) = Inr (arr', i')"
            using res True Inr le sw
            by (simp add: partition_loop.simps[of le pivot high arr i j])
          then show ?thesis using 1(1)[OF True Inr le sw] True by simp
        qed
      next
        case nle: False
        have "partition_loop le pivot high (arr, i, j + 1) = Inr (arr', i')"
          using res True Inr nle
          by (simp add: partition_loop.simps[of le pivot high arr i j])
        then show ?thesis using 1(2)[OF True Inr nle] True by simp
      qed
    qed
  qed
qed

lemma partition_qs_index:
  "partition_qs le arr low high = Inr (arr', p) \<Longrightarrow> low \<le> high \<Longrightarrow> low \<le> p \<and> p \<le> high"
  by (auto simp: partition_qs_def Let_def split: sum.splits dest!: partition_loop_index)

function quick_sort ::
  "('a \<Rightarrow> 'a \<Rightarrow> bool) \<Rightarrow> 'a list \<Rightarrow> int \<Rightarrow> int \<Rightarrow> py_error + 'a list" where
  "quick_sort le arr low high =
     (if length arr = 1 then Inr arr
      else if low < high then
        (case partition_qs le arr low high of
           Inl e \<Rightarrow> Inl e
         | Inr (arr1, pi) \<Rightarrow>
             (case quick_sort le arr1 low (pi - 1) of
                Inl e \<Rightarrow> Inl e
              | Inr arr2 \<Rightarrow> quick_sort le arr2 (pi + 1) high))
      else Inr arr)"
  by pat_completeness auto
termination
proof (relation "measure (\<lambda>(le, arr, low, high). nat (high - low))", goal_cases)
  case 1
  then show ?case by simp
next
  case (2 le arr low high x2 x y)
  then show ?case using partition_qs_index[of le arr low high x y] by auto
next
  case (3 le arr low high x2 x y x2a)
  then show ?case using partition_qs_index[of le arr low high x y] by auto
qed

declare quick_sort.simps [simp del]



lemma swap_items_in_range:
  "0 \<le> i \<Longrightarrow> i < int (length arr) \<Longrightarrow> 0 \<le> j \<Longrightarrow> j < int (length arr) \<Longrightarrow>
   swap_items arr i j = Inr (arr[nat i := arr ! nat j, nat j := arr ! nat i])"
  by (simp add: swap_items_def getitem_in_range setitem_in_range)

lemma mset_swap_int:
  "0 \<le> i \<Longrightarrow> i < int (length arr) \<Longrightarrow> 0 \<le> j \<Longrightarrow> j < int (length arr) \<Longrightarrow>
   mset (arr[nat i := arr ! nat j, nat j := arr ! nat i]) = mset arr"
  using mset_swap[of "nat j" arr "nat i"] by simp

lemma nth_swap_int:
  "0 \<le> i \<Longrightarrow> i < int (length arr) \<Longrightarrow> 0 \<le> j \<Longrightarrow> j < int (length arr) \<Longrightarrow> 0 \<le> p \<Longrightarrow>
   (arr[nat i := arr ! nat j, nat j := arr ! nat i]) ! nat p =
     (if p = j then arr ! nat i else if p = i then arr ! nat j else arr ! nat p)"
  by (auto simp: nth_list_update)

definition partitioned ::
  "('a::linorder) list \<Rightarrow> 'a \<Rightarrow> int \<Rightarrow> int \<Rightarrow> int \<Rightarrow> bool" where
  "partitioned arr pivot low i j \<longleftrightarrow>
     (\<forall>p. low \<le> p \<and> p \<le> i \<longrightarrow> arr ! nat p \<le> pivot) \<and>
     (\<forall>p. i < p \<and> p < j \<longrightarrow> pivot < arr ! nat p)"

definition same_outside :: "'a list \<Rightarrow> 'a list \<Rightarrow> int \<Rightarrow> int \<Rightarrow> bool" where
  "same_outside arr' arr low high \<longleftrightarrow>
     length arr' = length arr \<and> mset arr' = mset arr \<and>
     (\<forall>p. 0 \<le> p \<and> p < int (length arr) \<and> (p < low \<or> high < p) \<longrightarrow> arr' ! nat p = arr ! nat p)"

lemma same_outside_refl: "same_outside arr arr low high"
  by (simp add: same_outside_def)

lemma same_outside_trans:
  "same_outside a3 a2 l2 h2 \<Longrightarrow> same_outside a2 a1 l1 h1 \<Longrightarrow>
   l \<le> l1 \<Longrightarrow> l \<le> l2 \<Longrightarrow> h1 \<le> h \<Longrightarrow> h2 \<le> h \<Longrightarrow> same_outside a3 a1 l h"
  by (auto simp: same_outside_def)

lemma same_outside_swap:
  "0 \<le> low \<Longrightarrow> high < int (length arr) \<Longrightarrow> low \<le> i \<Longrightarrow> i \<le> high \<Longrightarrow> low \<le> j \<Longrightarrow> j \<le> high \<Longrightarrow>
   same_outside (arr[nat i := arr ! nat j, nat j := arr ! nat i]) arr low high"
  unfolding same_outside_def
  by (auto simp: mset_swap_int nth_swap_int)

lemma partition_loop_correct:
  fixes arr :: "('a::linorder) list"
  shows "0 \<le> low \<Longrightarrow> low \<le> j \<Longrightarrow> j \<le> high \<Longrightarrow> high < int (length arr) \<Longrightarrow>
    low - 1 \<le> i \<Longrightarrow> i < j \<Longrightarrow> partitioned arr pivot low i j \<Longrightarrow>
    \<exists>arr' i'. partition_loop (\<le>) pivot high (arr, i, j) = Inr (arr', i') \<and>
       same_outside arr' arr low (high - 1) \<and> partitioned arr' pivot low i' high"
proof (induction "(\<le>) :: 'a \<Rightarrow> 'a \<Rightarrow> bool" pivot high "(arr, i, j)" arbitrary: arr i j
       rule: partition_loop.induct)
  case (1 pivot high arr i j)
  note pre = 1(3-9)
  show ?case
  proof (cases "j < high")
    case False
    then have "j = high" using pre by simp
    moreover have "partition_loop (\<le>) pivot high (arr, i, j) = Inr (arr, i)"
      using False by (simp add: partition_loop.simps[of "(\<le>)" pivot high arr i j])
    ultimately show ?thesis using pre(7) same_outside_refl by auto
  next
    case True
    have gj: "getitem arr j = Inr (arr ! nat j)"
      using pre True by (intro getitem_in_range) auto
    show ?thesis
    proof (cases "arr ! nat j \<le> pivot")
      case le: True
      let ?arr1 = "arr[nat (i + 1) := arr ! nat j, nat j := arr ! nat (i + 1)]"
      have sw: "swap_items arr (i + 1) j = Inr ?arr1"
        using pre True by (intro swap_items_in_range) auto
      have so1: "same_outside ?arr1 arr low (high - 1)"
        using pre True by (intro same_outside_swap) auto
      have nth1: "?arr1 ! nat p = (if p = j then arr ! nat (i + 1) else if p = i + 1 then arr ! nat j else arr ! nat p)"
        if "0 \<le> p" for p
        using pre True that by (intro nth_swap_int) auto
      have p1: "partitioned ?arr1 pivot low (i + 1) (j + 1)"
        unfolding partitioned_def
      proof (intro conjI allI impI)
        fix p assume p: "low \<le> p \<and> p \<le> i + 1"
        then have "0 \<le> p" using pre by simp
        then show "?arr1 ! nat p \<le> pivot"
          using nth1[of p] p pre(7) le pre(6) by (auto simp: partitioned_def)
      next
        fix p assume p: "i + 1 < p \<and> p < j + 1"
        then have "0 \<le> p" using pre by simp
        then show "pivot < ?arr1 ! nat p"
          using nth1[of p] p pre(7) pre(6) by (auto simp: partitioned_def)
      qed
      have "\<exists>arr' i'. partition_loop (\<le>) pivot high (?arr1, i + 1, j + 1) = Inr (arr', i') \<and>
         same_outside arr' ?arr1 low (high - 1) \<and> partitioned arr' pivot low i' high"
        using 1(1)[OF True gj le sw] pre True p1 by simp
      then obtain arr' i' where r: "partition_loop (\<le>) pivot high (?arr1, i + 1, j + 1) = Inr (arr', i')"
        "same_outside arr' ?arr1 low (high - 1)" "partitioned arr' pivot low i' high"
        by blast
      have "partition_loop (\<le>) pivot high (arr, i, j) = Inr (arr', i')"
        using True gj le sw r(1) by (simp add: partition_loop.simps[of "(\<le>)" pivot high arr i j])
      moreover have "same_outside arr' arr low (high - 1)"
        using same_outside_trans[OF r(2) so1] by simp
      ultimately show ?thesis using r(3) by blast
    next
      case nle: False
      have p1: "partitioned arr pivot low i (j + 1)"
        unfolding partitioned_def
      proof (intro conjI allI impI)
        fix p assume "low \<le> p \<and> p \<le> i"
        then show "arr ! nat p \<le> pivot" using pre(7) by (simp add: partitioned_def)
      next
        fix p assume p: "i < p \<and> p < j + 1"
        show "pivot < arr ! nat p"
        proof (cases "p = j")
          case True
          then show ?thesis using nle by simp
        next
          case False
          then show ?thesis using p pre(7) by (simp add: partitioned_def)
        qed
      qed
      have "\<exists>arr' i'. partition_loop (\<le>) pivot high (arr, i, j + 1) = Inr (arr', i') \<and>
         same_outside arr' arr low (high - 1) \<and> partitioned arr' pivot low i' high"
        using 1(2)[OF True gj nle] pre True p1 by simp
      then show ?thesis
        using True gj nle by (simp add: partition_loop.simps[of "(\<le>)" pivot high arr i j])
    qed
  qed
qed


lemma partition_qs_correct:
  fixes arr :: "('a::linorder) list"
  assumes "0 \<le> low" "low \<le> high" "high < int (length arr)"
  shows "\<exists>arr' p. partition_qs (\<le>) arr low high = Inr (arr', p) \<and>
      same_outside arr' arr low high \<and> low \<le> p \<and> p \<le> high \<and>
      (\<forall>q. low \<le> q \<and> q < p \<longrightarrow> arr' ! nat q \<le> arr' ! nat p) \<and>
      (\<forall>q. p < q \<and> q \<le> high \<longrightarrow> arr' ! nat p < arr' ! nat q)"
proof -
  define pivot where "pivot = arr ! nat high"
  have gh: "getitem arr high = Inr pivot"
    using assms by (simp add: getitem_in_range pivot_def)
  have "partitioned arr pivot low (low - 1) low"
    unfolding partitioned_def
  proof (intro conjI allI impI)
    fix p assume "low \<le> p \<and> p \<le> low - 1"
    then have False by linarith
    then show "arr ! nat p \<le> pivot" ..
  next
    fix p assume "low - 1 < p \<and> p < low"
    then have False by linarith
    then show "pivot < arr ! nat p" ..
  qed
  then obtain arr1 i1 where l: "partition_loop (\<le>) pivot high (arr, low - 1, low) = Inr (arr1, i1)"
    "same_outside arr1 arr low (high - 1)" "partitioned arr1 pivot low i1 high"
    using partition_loop_correct[of low low high arr "low - 1" pivot] assms by auto
  have i1: "low - 1 \<le> i1" "i1 \<le> high - 1"
    using partition_loop_index[OF l(1)] assms by auto
  have len1: "length arr1 = length arr"
    using l(2) by (simp add: same_outside_def)
  have ph: "arr1 ! nat high = pivot"
    using l(2) assms by (simp add: same_outside_def pivot_def)
  let ?arr2 = "arr1[nat (i1 + 1) := arr1 ! nat high, nat high := arr1 ! nat (i1 + 1)]"
  have sw: "swap_items arr1 (i1 + 1) high = Inr ?arr2"
    using i1 assms len1 by (intro swap_items_in_range) auto
  have res: "partition_qs (\<le>) arr low high = Inr (?arr2, i1 + 1)"
    using gh l(1) sw by (simp add: partition_qs_def)
  have so2: "same_outside ?arr2 arr1 low high"
    using i1 assms len1 by (intro same_outside_swap) auto
  have so: "same_outside ?arr2 arr low high"
    using same_outside_trans[OF so2 l(2)] by simp
  have nth2: "?arr2 ! nat q = (if q = high then arr1 ! nat (i1 + 1) else if q = i1 + 1 then arr1 ! nat high else arr1 ! nat q)"
    if "0 \<le> q" for q
    using i1 assms len1 that by (intro nth_swap_int) auto
  have piv: "?arr2 ! nat (i1 + 1) = pivot"
    using nth2[of "i1 + 1"] i1 assms ph by auto
  have lo: "?arr2 ! nat q \<le> pivot" if "low \<le> q \<and> q < i1 + 1" for q
    using nth2[of q] that l(3) i1 assms by (auto simp: partitioned_def)
  have hi: "pivot < ?arr2 ! nat q" if "i1 + 1 < q \<and> q \<le> high" for q
    using nth2[of q] that l(3) i1 assms by (auto simp: partitioned_def)
  show ?thesis
    using res so i1 lo hi piv by auto
qed

definition sorted_between :: "('a::linorder) list \<Rightarrow> int \<Rightarrow> int \<Rightarrow> bool" where
  "sorted_between arr low high \<longleftrightarrow>
     (\<forall>p q. low \<le> p \<and> p \<le> q \<and> q \<le> high \<longrightarrow> arr ! nat p \<le> arr ! nat q)"

lemma same_outside_segment:
  assumes so: "same_outside r a l h" and l: "0 \<le> l" and h: "h < int (length a)"
    and p: "l \<le> p" "p \<le> h"
  shows "\<exists>q. l \<le> q \<and> q \<le> h \<and> r ! nat p = a ! nat q"
proof -
  define L where "L = nat l"
  define H where "H = nat (h + 1)"
  have LH: "L \<le> H" "H \<le> length a" "L \<le> nat p" "nat p < H"
    using l h p by (auto simp: L_def H_def)
  have len: "length r = length a" and ms: "mset r = mset a"
    using so by (auto simp: same_outside_def)
  have out: "r ! k = a ! k" if "k < length a" "k < L \<or> H \<le> k" for k
  proof -
    have "0 \<le> int k \<and> int k < int (length a) \<and> (int k < l \<or> h < int k)"
      using that l by (auto simp: L_def H_def)
    then have "r ! nat (int k) = a ! nat (int k)"
      using so unfolding same_outside_def by blast
    then show ?thesis by simp
  qed
  have tk: "take L r = take L a"
    using LH len out by (intro nth_take_lemma) auto
  have dr: "drop H r = drop H a"
    using LH len out by (intro nth_equalityI) auto
  have dec: "xs = take L xs @ take (H - L) (drop L xs) @ drop H xs" for xs :: "'a list"
  proof -
    have "drop L xs = take (H - L) (drop L xs) @ drop (H - L) (drop L xs)"
      by (rule append_take_drop_id[symmetric])
    moreover have "drop (H - L) (drop L xs) = drop H xs" using LH by simp
    ultimately show ?thesis by (metis append_take_drop_id)
  qed
  have "mset r = mset (take L r) + mset (take (H - L) (drop L r)) + mset (drop H r)"
    using dec[of r] by (metis mset_append add.assoc)
  moreover have "mset a = mset (take L a) + mset (take (H - L) (drop L a)) + mset (drop H a)"
    using dec[of a] by (metis mset_append add.assoc)
  ultimately have "mset (take (H - L) (drop L r)) = mset (take (H - L) (drop L a))"
    using ms tk dr by simp
  then have sets: "set (take (H - L) (drop L r)) = set (take (H - L) (drop L a))"
    by (metis set_mset_mset)
  have "r ! nat p = take (H - L) (drop L r) ! (nat p - L)"
    using LH len by simp
  moreover have "nat p - L < length (take (H - L) (drop L r))"
    using LH len by simp
  ultimately have "r ! nat p \<in> set (take (H - L) (drop L r))"
    by (metis nth_mem)
  then have "r ! nat p \<in> set (take (H - L) (drop L a))"
    using sets by simp
  then obtain k where k: "k < length (take (H - L) (drop L a))" "take (H - L) (drop L a) ! k = r ! nat p"
    by (auto simp: in_set_conv_nth)
  then have k': "k < H - L" "a ! (L + k) = r ! nat p"
    using LH by auto
  have "l \<le> int (L + k)" "int (L + k) \<le> h"
    using k'(1) l h by (auto simp: L_def H_def)
  moreover have "r ! nat p = a ! nat (int (L + k))"
    using k'(2) by (simp only: nat_int)
  ultimately show ?thesis by blast
qed



lemma quick_sort_correct:
  fixes arr :: "('a::linorder) list"
  shows "0 \<le> low \<Longrightarrow> high < int (length arr) \<Longrightarrow>
    \<exists>r. quick_sort (\<le>) arr low high = Inr r \<and> same_outside r arr low high \<and>
        sorted_between r low high"
proof (induction "(\<le>) :: 'a \<Rightarrow> 'a \<Rightarrow> bool" arr low high rule: quick_sort.induct)
  case (1 arr low high)
  note lo = 1(3) and hi = 1(4)
  show ?case
  proof (cases "length arr = 1")
    case True
    have "quick_sort (\<le>) arr low high = Inr arr"
      using True by (simp add: quick_sort.simps[of "(\<le>)" arr low high])
    moreover have "sorted_between arr low high"
      unfolding sorted_between_def
    proof (intro allI impI)
      fix p q assume "low \<le> p \<and> p \<le> q \<and> q \<le> high"
      then have "p = q" using lo hi True by simp
      then show "arr ! nat p \<le> arr ! nat q" by simp
    qed
    ultimately show ?thesis using same_outside_refl by blast
  next
    case len: False
    show ?thesis
    proof (cases "low < high")
      case False
      have "quick_sort (\<le>) arr low high = Inr arr"
        using False len by (simp add: quick_sort.simps[of "(\<le>)" arr low high])
      moreover have "sorted_between arr low high"
        unfolding sorted_between_def
      proof (intro allI impI)
        fix p q assume "low \<le> p \<and> p \<le> q \<and> q \<le> high"
        then have "p = q" using False by simp
        then show "arr ! nat p \<le> arr ! nat q" by simp
      qed
      ultimately show ?thesis using same_outside_refl by blast
    next
      case lh: True
      obtain arr1 pi where part: "partition_qs (\<le>) arr low high = Inr (arr1, pi)"
        and so1: "same_outside arr1 arr low high" and pi: "low \<le> pi" "pi \<le> high"
        and below: "\<forall>q. low \<le> q \<and> q < pi \<longrightarrow> arr1 ! nat q \<le> arr1 ! nat pi"
        and above: "\<forall>q. pi < q \<and> q \<le> high \<longrightarrow> arr1 ! nat pi < arr1 ! nat q"
        using partition_qs_correct[of low high arr] lo hi lh by auto
      have len1: "length arr1 = length arr" using so1 by (simp add: same_outside_def)
      obtain arr2 where q1: "quick_sort (\<le>) arr1 low (pi - 1) = Inr arr2"
        and so2: "same_outside arr2 arr1 low (pi - 1)" and sb2: "sorted_between arr2 low (pi - 1)"
        using 1(1)[OF len lh part refl] lo hi pi len1 by auto
      have len2: "length arr2 = length arr" using so2 len1 by (simp add: same_outside_def)
      obtain arr3 where q2: "quick_sort (\<le>) arr2 (pi + 1) high = Inr arr3"
        and so3: "same_outside arr3 arr2 (pi + 1) high" and sb3: "sorted_between arr3 (pi + 1) high"
        using 1(2)[OF len lh part refl q1] lo hi pi len2 by auto
      have res: "quick_sort (\<le>) arr low high = Inr arr3"
        using len lh part q1 q2 by (simp add: quick_sort.simps[of "(\<le>)" arr low high])
      have so: "same_outside arr3 arr low high"
      proof -
        have "same_outside arr3 arr1 low high"
          using same_outside_trans[OF so3 so2, of low high] pi by simp
        then show ?thesis using same_outside_trans[OF _ so1, of arr3 low high low high] by simp
      qed
      define pv where "pv = arr1 ! nat pi"
      have in_range: "0 \<le> p \<and> p < int (length arr)" if "low \<le> p" "p \<le> high" for p
        using that lo hi by simp
      have a2_pi: "arr2 ! nat pi = pv"
        using so2 pi lo hi len1 unfolding same_outside_def pv_def by auto
      have a3_pi: "arr3 ! nat pi = pv"
        using so3 pi lo hi len2 a2_pi unfolding same_outside_def by auto
      have a2_low: "arr2 ! nat p \<le> pv" if pl: "low \<le> p" "p < pi" for p
      proof -
        have "pi - 1 < int (length arr1)" "p \<le> pi - 1"
          using pl pi hi len1 by auto
        then obtain q where "low \<le> q" "q \<le> pi - 1" "arr2 ! nat p = arr1 ! nat q"
          using same_outside_segment[OF so2 lo _ pl(1)] by blast
        then show ?thesis using below by (simp add: pv_def)
      qed
      have a3_low: "arr3 ! nat p = arr2 ! nat p" if "low \<le> p" "p < pi" for p
        using so3 that pi lo hi len2 unfolding same_outside_def by auto
      have a2_high: "arr2 ! nat p = arr1 ! nat p" if "pi < p" "p \<le> high" for p
        using so2 that pi lo hi len1 unfolding same_outside_def by auto
      have a3_high: "pv < arr3 ! nat p" if ph: "pi < p" "p \<le> high" for p
      proof -
        have "0 \<le> pi + 1" using lo pi by simp
        moreover have "high < int (length arr2)" using hi len2 by simp
        moreover have "pi + 1 \<le> p" using ph by simp
        ultimately obtain q where q: "pi + 1 \<le> q" "q \<le> high" "arr3 ! nat p = arr2 ! nat q"
          using same_outside_segment[OF so3 _ _ _ ph(2)] by blast
        then have "arr2 ! nat q = arr1 ! nat q" using a2_high by simp
        then show ?thesis using q above by (simp add: pv_def)
      qed
      have sb: "sorted_between arr3 low high"
        unfolding sorted_between_def
      proof (intro allI impI)
        fix p q assume pq: "low \<le> p \<and> p \<le> q \<and> q \<le> high"
        consider "q < pi" | "p < pi" "q = pi" | "p < pi" "pi < q" | "p = pi" "q = pi"
          | "p = pi" "pi < q" | "pi < p"
          using pq by linarith
        then show "arr3 ! nat p \<le> arr3 ! nat q"
        proof cases
          case 1
          then have "arr2 ! nat p \<le> arr2 ! nat q"
            using sb2 pq unfolding sorted_between_def by auto
          then show ?thesis using a3_low[of p] a3_low[of q] 1 pq by simp
        next
          case 2
          then show ?thesis using a3_low[of p] a2_low[of p] a3_pi pq by simp
        next
          case 3
          then show ?thesis using a3_low[of p] a2_low[of p] a3_high[of q] pq by simp
        next
          case 4
          then show ?thesis by simp
        next
          case 5
          then show ?thesis using a3_pi a3_high[of q] pq by simp
        next
          case 6
          then show ?thesis using sb3 pq unfolding sorted_between_def by auto
        qed
      qed
      show ?thesis using res so sb by blast
    qed
  qed
qed

lemma quick_sort_sorted_mset:
  fixes arr :: "('a::linorder) list"
  shows "\<exists>r. quick_sort (\<le>) arr 0 (int (length arr) - 1) = Inr r \<and> sorted r \<and> mset r = mset arr"
proof -
  obtain r where r: "quick_sort (\<le>) arr 0 (int (length arr) - 1) = Inr r"
    "same_outside r arr 0 (int (length arr) - 1)" "sorted_between r 0 (int (length arr) - 1)"
    using quick_sort_correct[of 0 "int (length arr) - 1" arr] by auto
  have len: "length r = length arr" and ms: "mset r = mset arr"
    using r(2) by (auto simp: same_outside_def)
  have "r ! i \<le> r ! j" if "i \<le> j" "j < length r" for i j
  proof -
    have "0 \<le> int i \<and> int i \<le> int j \<and> int j \<le> int (length arr) - 1"
      using that len by simp
    then have "r ! nat (int i) \<le> r ! nat (int j)"
      using r(3) unfolding sorted_between_def by blast
    then show ?thesis by simp
  qed
  then have "sorted r" by (simp add: sorted_iff_nth_mono)
  then show ?thesis using r(1) ms by blast
qed

subsection \<open>The three sorts\<close>

text \<open>
  Claim C3. For every list over a linear order, \<open>bubble_sort\<close>, \<open>merge_sort\<close> and
  \<open>quick_sort(arr, 0, len(arr) - 1)\<close> each leave a permutation of the input in
  non-decreasing order; \<open>quick_sort\<close> raises no error on the way.
\<close>

theorem sorts_yield_sorted_permutation:
  fixes arr :: "('a::linorder) list"
  shows "sorted (bubble_sort (>) arr) \<and> mset (bubble_sort (>) arr) = mset arr \<and>
         sorted (merge_sort (<) arr) \<and> mset (merge_sort (<) arr) = mset arr \<and>
         (\<exists>r. quick_sort (\<le>) arr 0 (int (length arr) - 1) = Inr r \<and>
              sorted r \<and> mset r = mset arr)"
  using bubble_sort_sorted_mset[of arr] merge_sort_sorted_mset[of arr]
        quick_sort_sorted_mset[of arr]
  by simp

text \<open>
  Claim C2, as the code has it. The merge copies the left head only when it is strictly
  less than the right head (\<open>L[i] < R[j]\<close>); on a tie the right element is copied first.
  So \<open>merge_sort\<close> sorts by key and permutes its input, but it is not stable: the
  elements that share a key come out in the reverse of their original order.
\<close>

theorem merge_sort_ties_right_first:
  fixes key :: "'a \<Rightarrow> 'k::linorder"
  shows "(i < length L \<and> j < length R \<and> key (L ! i) = key (R ! j) \<longrightarrow>
            merge_loop1 (\<lambda>a b. key a < key b) L R (arr, i, j, k) =
            merge_loop1 (\<lambda>a b. key a < key b) L R (arr[k := R ! j], i, j + 1, k + 1)) \<and>
         sorted (map key (merge_sort (\<lambda>a b. key a < key b) arr)) \<and>
         mset (merge_sort (\<lambda>a b. key a < key b) arr) = mset arr \<and>
         filter (\<lambda>x. key x = c) (merge_sort (\<lambda>a b. key a < key b) arr) =
           rev (filter (\<lambda>x. key x = c) arr)"
  using merge_sort_key[of key arr c]
  by (simp add: merge_loop1.simps[of _ L R arr i j k])

theorem merge_sort_ties_right_first_witness:
  "(0::nat) < length [(1::nat, ''a'')] \<and> (0::nat) < length [(1::nat, ''b'')] \<and>
   fst ([(1::nat, ''a'')] ! 0) = fst ([(1::nat, ''b'')] ! 0) \<and>
   merge_loop1 (\<lambda>a b. fst a < fst b) [(1::nat, ''a'')] [(1, ''b'')]
       ([(1, ''a''), (1, ''b'')], 0, 0, 0) =
   merge_loop1 (\<lambda>a b. fst a < fst b) [(1::nat, ''a'')] [(1, ''b'')]
       ([(1, ''b''), (1, ''b'')], 0, 1, 1) \<and>
   filter (\<lambda>x. fst x = 1) (merge_sort (\<lambda>a b. fst a < fst b) [(1::nat, ''a''), (1, ''b'')]) =
     rev (filter (\<lambda>x. fst x = 1) [(1::nat, ''a''), (1, ''b'')])"
  using merge_sort_ties_right_first[where i = 0 and j = 0 and k = 0 and key = fst and c = 1
          and L = "[(1::nat, ''a'')]" and R = "[(1::nat, ''b'')]"
          and arr = "[(1::nat, ''a''), (1, ''b'')]"]
  by simp

text \<open>
  Claim C2 as stated (left-biased on ties, hence stable) fails. Sorting the two records
  \<open>(1, a), (1, b)\<close> by their first component: the first loop, started on the halves
  \<open>[(1, a)]\<close> and \<open>[(1, b)]\<close>, ends having copied the right element and advanced \<open>j\<close>,
  not \<open>i\<close>; and the sorted list has \<open>(1, b)\<close> before \<open>(1, a)\<close>.
\<close>

theorem merge_sort_stable_counterexample:
  "merge_loop1 (\<lambda>a b. fst a < fst b) [(1::nat, ''a'')] [(1, ''b'')] ([(1, ''a''), (1, ''b'')], 0, 0, 0) =
     ([(1, ''b''), (1, ''b'')], 0, 1, 1) \<and>
   merge_sort (\<lambda>a b. fst a < fst b) [(1::nat, ''a''), (1, ''b'')] = [(1, ''b''), (1, ''a'')]"
  by (simp add: merge_sort.simps merge_loop1.simps merge_loop2.simps merge_loop3.simps)

lemma sorted_same_mset:
  fixes xs ys :: "('a::linorder) list"
  assumes "sorted xs" "sorted ys" "mset xs = mset ys"
  shows "xs = ys"
proof -
  have "sort ys = xs" using assms by (intro properties_for_sort) simp_all
  moreover have "sort ys = ys" using assms(2) by (rule sort_key_id_if_sorted[where f = "\<lambda>x. x", simplified])
  ultimately show ?thesis by simp
qed

text \<open>
  Sorting twice is sorting once: each sort leaves its own output as it is.
\<close>

theorem sorts_idempotent:
  fixes arr :: "('a::linorder) list"
  shows "bubble_sort (>) (bubble_sort (>) arr) = bubble_sort (>) arr \<and>
         merge_sort (<) (merge_sort (<) arr) = merge_sort (<) arr \<and>
         (\<exists>r. quick_sort (\<le>) arr 0 (int (length arr) - 1) = Inr r \<and>
              quick_sort (\<le>) r 0 (int (length r) - 1) = Inr r)"
proof (intro conjI)
  show "bubble_sort (>) (bubble_sort (>) arr) = bubble_sort (>) arr"
    using bubble_sort_sorted_mset[of arr] bubble_sort_sorted_mset[of "bubble_sort (>) arr"]
    by (intro sorted_same_mset) simp_all
  show "merge_sort (<) (merge_sort (<) arr) = merge_sort (<) arr"
    using merge_sort_sorted_mset[of arr] merge_sort_sorted_mset[of "merge_sort (<) arr"]
    by (intro sorted_same_mset) simp_all
  obtain r where r: "quick_sort (\<le>) arr 0 (int (length arr) - 1) = Inr r" "sorted r"
    using quick_sort_sorted_mset[of arr] by blast
  obtain r' where r': "quick_sort (\<le>) r 0 (int (length r) - 1) = Inr r'" "sorted r'" "mset r' = mset r"
    using quick_sort_sorted_mset[of r] by blast
  have "r' = r" using r(2) r'(2,3) by (intro sorted_same_mset) simp_all
  then show "\<exists>r. quick_sort (\<le>) arr 0 (int (length arr) - 1) = Inr r \<and>
              quick_sort (\<le>) r 0 (int (length r) - 1) = Inr r"
    using r(1) r'(1) by blast
qed

section \<open>Linked list (python/05_DSA_Custom/02_linked_lists.py)\<close>

text \<open>
  Nodes are objects that are shared by reference: \<open>insert_after\<close> receives a reference
  to a node of the list. The object store is the list \<open>nodes\<close>; a reference is an index
  into it and a new object is allocated at the end. \<open>print\<close> appends to \<open>stdout\<close>.
\<close>

type_synonym ref = nat

record 'a node_ll =
  data :: 'a
  "next" :: "ref option"

record 'a linked_list =
  nodes :: "'a node_ll list"
  head :: "ref option"
  stdout :: "string list"

text \<open>The constructors \<open>Node(data)\<close> and \<open>LinkedList()\<close>.\<close>

definition Node_ll :: "'a \<Rightarrow> 'a node_ll" where
  "Node_ll d = \<lparr>data = d, next = None\<rparr>"

definition LinkedList :: "'a linked_list" where
  "LinkedList = \<lparr>nodes = [], head = None, stdout = []\<rparr>"

definition push :: "'a linked_list \<Rightarrow> 'a \<Rightarrow> 'a linked_list" where
  "push self new_data =
     (let new_node = length (nodes self);
          hp = nodes self @ [Node_ll new_data];
          hp = hp[new_node := (hp ! new_node)\<lparr>next := head self\<rparr>]
      in self\<lparr>nodes := hp, head := Some new_node\<rparr>)"

text \<open>
  A reference that is not \<open>None\<close> points to a node that exists (Python has no dangling
  references), so \<open>prev_node.next\<close> reads and writes a node of the store.
\<close>

definition insert_after :: "'a linked_list \<Rightarrow> ref option \<Rightarrow> 'a \<Rightarrow> 'a linked_list" where
  "insert_after self prev_node new_data =
     (case prev_node of
        None \<Rightarrow> self\<lparr>stdout := stdout self @ [''The given previous node must inLinkedList.'']\<rparr>
      | Some p \<Rightarrow>
          (let new_node = length (nodes self);
               hp = nodes self @ [Node_ll new_data];
               hp = hp[new_node := (hp ! new_node)\<lparr>next := next (hp ! p)\<rparr>];
               hp = hp[p := (hp ! p)\<lparr>next := Some new_node\<rparr>]
           in self\<lparr>nodes := hp\<rparr>))"

text \<open>
  The traversal of \<open>print_list\<close>, as the sequence of the values it prints from the head
  on; \<open>None\<close> when following the \<open>next\<close> links never reaches \<open>None\<close>.
\<close>

partial_function (option) print_loop ::
  "'a node_ll list \<Rightarrow> ref option \<Rightarrow> 'a list \<Rightarrow> 'a list option" where
  "print_loop hp temp printed =
     (case temp of
        None \<Rightarrow> Some printed
      | Some r \<Rightarrow> print_loop hp (next (hp ! r)) (printed @ [data (hp ! r)]))"

definition print_list :: "'a linked_list \<Rightarrow> 'a list option" where
  "print_list self = print_loop (nodes self) (head self) []"

lemma print_list_example:
  "print_list (insert_after (push (push (push LinkedList (6::int)) 7) 1) (Some 1) 8) =
     Some [1, 7, 8, 6]"
  by (simp add: print_list_def print_loop.simps push_def insert_after_def LinkedList_def
        Node_ll_def)

text \<open>
  Claim C9. \<open>insert_after\<close> called with \<open>None\<close> for the node prints its message and
  returns normally; it allocates nothing and assigns to no field, so the head, every
  node (its data and its next link) and the sequence that a traversal from the head
  yields are what they were.
\<close>

theorem insert_after_None_no_mutation:
  "insert_after self None new_data =
     self\<lparr>stdout := stdout self @ [''The given previous node must inLinkedList.'']\<rparr> \<and>
   head (insert_after self None new_data) = head self \<and>
   nodes (insert_after self None new_data) = nodes self \<and>
   print_list (insert_after self None new_data) = print_list self"
  by (simp add: insert_after_def print_list_def)

section \<open>Graph (python/05_DSA_Custom/06_graphs.py)\<close>

text \<open>
  \<open>self.graph\<close> is a \<open>defaultdict(list)\<close>: a dictionary from a vertex to the list of its
  successors, which keeps its keys in insertion order and whose lookup \<open>self.graph[u]\<close>
  inserts \<open>u\<close> with an empty list when \<open>u\<close> is not a key. It is modelled as an
  association list read with \<open>map_of\<close>; vertex identifiers are natural numbers (the
  graph is specified for non-negative identifiers). \<open>print\<close> of a vertex appends it to
  the output list; the heading that each traversal prints first and the final newline
  are left out. Both traversals return the graph as they leave it; \<open>bfs\<close> also
  returns whether it raised, with the graph and the output at that point.
\<close>

type_synonym graph = "(nat \<times> nat list) list"

definition graph_getitem :: "graph \<Rightarrow> nat \<Rightarrow> graph \<times> nat list" where
  "graph_getitem g u =
     (case map_of g u of
        Some vs \<Rightarrow> (g, vs)
      | None \<Rightarrow> (g @ [(u, [])], []))"

text \<open>Assignment of a new list to the entry of an existing or new key.\<close>

fun graph_store :: "graph \<Rightarrow> nat \<Rightarrow> nat list \<Rightarrow> graph" where
  "graph_store [] u vs = [(u, vs)]"
| "graph_store ((k, ws) # g) u vs =
     (if k = u then (k, vs) # g else (k, ws) # graph_store g u vs)"

definition add_edge :: "graph \<Rightarrow> nat \<Rightarrow> nat \<Rightarrow> graph" where
  "add_edge g u v = (let (g1, vs) = graph_getitem g u in graph_store g1 u (vs @ [v]))"

text \<open>\<open>max\<close> of a collection of vertex identifiers.\<close>

fun py_max :: "nat list \<Rightarrow> py_error + nat" where
  "py_max [] = Inl ValueError"
| "py_max (x # xs) = Inr (fold max xs x)"

fun bfs_for :: "nat list \<Rightarrow> bool list \<times> nat list \<Rightarrow> py_error + bool list \<times> nat list" where
  "bfs_for [] (visited, queue) = Inr (visited, queue)"
| "bfs_for (i # rest) (visited, queue) =
     (case getitem visited (int i) of
        Inl e \<Rightarrow> Inl e
      | Inr b \<Rightarrow>
          if b = False then
            (case setitem visited (int i) True of
               Inl e \<Rightarrow> Inl e
             | Inr visited1 \<Rightarrow> bfs_for rest (visited1, queue @ [i]))
          else bfs_for rest (visited, queue))"

text \<open>The number of \<open>False\<close> entries of the marker list: what the queue can still gain.\<close>

definition unmarked :: "bool list \<Rightarrow> nat" where
  "unmarked visited = length (filter (\<lambda>b. \<not> b) visited)"

lemma getitem_nat:
  "getitem xs (int i) = (if i < length xs then Inr (xs ! i) else Inl IndexError)"
  by (simp add: getitem_def)

lemma setitem_nat:
  "setitem xs (int i) v = (if i < length xs then Inr (xs[i := v]) else Inl IndexError)"
  by (simp add: setitem_def)

lemma unmarked_mark:
  "i < length visited \<Longrightarrow> \<not> visited ! i \<Longrightarrow> Suc (unmarked (visited[i := True])) = unmarked visited"
proof (induction visited arbitrary: i)
  case Nil
  then show ?case by simp
next
  case (Cons b bs)
  then show ?case by (cases i) (auto simp: unmarked_def)
qed

lemma bfs_for_measure:
  "bfs_for adj (visited, queue) = Inr (visited1, queue1) \<Longrightarrow>
   length visited1 = length visited \<and> length queue \<le> length queue1 \<and>
   unmarked visited1 + length queue1 = unmarked visited + length queue"
proof (induction adj "(visited, queue)" arbitrary: visited queue rule: bfs_for.induct)
  case (1 visited queue)
  then show ?case by simp
next
  case (2 i rest visited queue)
  show ?case
  proof (cases "i < length visited")
    case False
    then show ?thesis using 2(3) by (simp add: getitem_nat)
  next
    case True
    show ?thesis
    proof (cases "visited ! i")
      case True
      then show ?thesis using 2(2)[of "visited ! i"] 2(3) \<open>i < length visited\<close>
        by (simp add: getitem_nat)
    next
      case False
      have "bfs_for rest (visited[i := True], queue @ [i]) = Inr (visited1, queue1)"
        using 2(3) True False by (simp add: getitem_nat setitem_nat)
      then have "length visited1 = length (visited[i := True]) \<and>
         length (queue @ [i]) \<le> length queue1 \<and>
         unmarked visited1 + length queue1 = unmarked (visited[i := True]) + length (queue @ [i])"
        using 2(1)[of "visited ! i" "visited[i := True]"] True False
        by (simp add: getitem_nat setitem_nat)
      then show ?thesis using unmarked_mark[OF True False] by simp
    qed
  qed
qed

function bfs_while ::
  "graph \<times> bool list \<times> nat list \<times> nat list \<Rightarrow> (py_error + unit) \<times> graph \<times> nat list" where
  "bfs_while (g, visited, queue, out) =
     (case queue of
        [] \<Rightarrow> (Inr (), g, out)
      | s # queue1 \<Rightarrow>
          (let out1 = out @ [s];
               (g1, adj) = graph_getitem g s
           in case bfs_for adj (visited, queue1) of
                Inl e \<Rightarrow> (Inl e, g1, out1)
              | Inr (visited1, queue2) \<Rightarrow> bfs_while (g1, visited1, queue2, out1)))"
  by pat_completeness auto
termination
proof (relation "measure (\<lambda>(g, visited, queue, out). 2 * unmarked visited + length queue)", goal_cases)
  case 1
  then show ?case by simp
next
  case (2 g visited queue out s queue1 out1 x g1 adj x2 visited1 queue2)
  then show ?case using bfs_for_measure[of adj visited queue1 visited1 queue2] by simp
qed

declare bfs_while.simps [simp del]

definition bfs :: "graph \<Rightarrow> nat \<Rightarrow> (py_error + unit) \<times> graph \<times> nat list" where
  "bfs g s =
     (case py_max (map fst g) of
        Inl e \<Rightarrow> (Inl e, g, [])
      | Inr m \<Rightarrow>
          (let visited = replicate (m + 1) False;
               queue = [] @ [s]
           in case setitem visited (int s) True of
                Inl e \<Rightarrow> (Inl e, g, [])
              | Inr visited1 \<Rightarrow> bfs_while (g, visited1, queue, [])))"

lemma bfs_no_keys: "bfs [] s = (Inl ValueError, [], [])"
  by (simp add: bfs_def)



text \<open>
  \<open>dfs_util\<close> calls itself from inside its \<open>for\<close> loop, so the loop is a function of
  its own, mutually recursive with \<open>dfs_util\<close>. The state that both thread through is
  the graph, the set \<open>visited\<close> and the output. The call stack is as deep as the
  traversal needs: the interpreter's recursion limit is not part of the model.
\<close>

type_synonym dfs_state = "graph \<times> nat set \<times> nat list"

function dfs_util :: "nat \<Rightarrow> dfs_state \<Rightarrow> dfs_state"
  and dfs_for :: "nat list \<Rightarrow> dfs_state \<Rightarrow> dfs_state" where
  "dfs_util v (g, visited, out) =
     (let visited1 = insert v visited;
          out1 = out @ [v];
          (g1, adj) = graph_getitem g v
      in dfs_for adj (g1, visited1, out1))"
| "dfs_for [] st = st"
| "dfs_for (neighbour # rest) (g, visited, out) =
     (if neighbour \<notin> visited then dfs_for rest (dfs_util neighbour (g, visited, out))
      else dfs_for rest (g, visited, out))"
  by pat_completeness auto


text \<open>Every vertex that the graph mentions, as a key or as a successor.\<close>

definition verts :: "graph \<Rightarrow> nat set" where
  "verts g = fst ` set g \<union> (\<Union>(k, vs) \<in> set g. set vs)"

lemma finite_verts [simp]: "finite (verts g)"
  by (auto simp: verts_def)

lemma graph_getitem_verts:
  "graph_getitem g v = (g1, adj) \<Longrightarrow> verts g1 \<subseteq> verts g \<union> {v} \<and> set adj \<subseteq> verts g1 \<and> verts g \<subseteq> verts g1"
  by (auto simp: graph_getitem_def verts_def split: option.splits dest!: map_of_SomeD)

definition dfs_frame :: "nat set \<Rightarrow> dfs_state \<Rightarrow> dfs_state \<Rightarrow> bool" where
  "dfs_frame new st st' \<longleftrightarrow>
     fst (snd st) \<subseteq> fst (snd st') \<and> verts (fst st') \<subseteq> verts (fst st) \<union> new"

lemma dfs_dom_frame:
  "dfs_util_dfs_for_dom (Inl (v, st)) \<Longrightarrow> dfs_frame {v} st (dfs_util v st)"
  "dfs_util_dfs_for_dom (Inr (ns, st)) \<Longrightarrow> dfs_frame (set ns) st (dfs_for ns st)"
proof (induction v st and ns st rule: dfs_util_dfs_for.pinduct)
  case (1 v g visited out)
  obtain g1 adj where gi: "graph_getitem g v = (g1, adj)"
    by (cases "graph_getitem g v")
  have "dfs_frame (set adj) (g1, insert v visited, out @ [v]) (dfs_for adj (g1, insert v visited, out @ [v]))"
    using 1(2)[OF refl refl gi[symmetric] refl] .
  moreover have "dfs_util v (g, visited, out) = dfs_for adj (g1, insert v visited, out @ [v])"
    using 1(1) gi by (simp add: dfs_util.psimps)
  ultimately show ?case
    using graph_getitem_verts[OF gi] by (auto simp: dfs_frame_def)
next
  case (2 st)
  then show ?case by (simp add: dfs_for.psimps dfs_frame_def)
next
  case (3 neighbour rest g visited out)
  show ?case
  proof (cases "neighbour \<in> visited")
    case True
    then show ?thesis using 3(1) 3(4)
      by (auto simp: dfs_for.psimps dfs_frame_def)
  next
    case False
    have a: "dfs_frame {neighbour} (g, visited, out) (dfs_util neighbour (g, visited, out))"
      using 3(2)[OF False] .
    have b: "dfs_frame (set rest) (dfs_util neighbour (g, visited, out))
               (dfs_for rest (dfs_util neighbour (g, visited, out)))"
      using 3(3)[OF False] .
    have "dfs_for (neighbour # rest) (g, visited, out) = dfs_for rest (dfs_util neighbour (g, visited, out))"
      using 3(1) False by (simp add: dfs_for.psimps)
    then show ?thesis using a b by (auto simp: dfs_frame_def)
  qed
qed

termination dfs_util
proof (relation "inv_image (less_than <*lex*> less_than <*lex*> less_than)
    (\<lambda>x. case x of
       Inl (v, g, visited, out) \<Rightarrow> (card (verts g - insert v visited), 1::nat, 0::nat)
     | Inr (ns, g, visited, out) \<Rightarrow> (card ((verts g \<union> set ns) - visited), 0, length ns))",
    goal_cases)
  case 1
  show ?case by (intro wf_inv_image wf_lex_prod wf_less_than)
next
  case (2 v g visited out visited1 out1 pr g1 adj)
  have gi: "graph_getitem g v = (g1, adj)" using 2(3,4) by simp
  have "(verts g1 \<union> set adj) - insert v visited \<subseteq> verts g - insert v visited"
    using graph_getitem_verts[OF gi] by auto
  then have "card ((verts g1 \<union> set adj) - insert v visited) \<le> card (verts g - insert v visited)"
    by (intro card_mono) auto
  then show ?case using 2(1) by auto
next
  case (3 neighbour rest g visited out)
  have "verts g - insert neighbour visited \<subset> (verts g \<union> set (neighbour # rest)) - visited"
    using 3 by auto
  then have "card (verts g - insert neighbour visited) < card ((verts g \<union> set (neighbour # rest)) - visited)"
    by (intro psubset_card_mono) auto
  then show ?case by simp
next
  case (4 neighbour rest g visited out)
  obtain g' visited' out' where r: "dfs_util neighbour (g, visited, out) = (g', visited', out')"
    by (cases "dfs_util neighbour (g, visited, out)")
  have "dfs_frame {neighbour} (g, visited, out) (g', visited', out')"
    using dfs_dom_frame(1)[OF 4(2)] r by simp
  then have "(verts g' \<union> set rest) - visited' \<subseteq> (verts g \<union> set (neighbour # rest)) - visited"
    by (auto simp: dfs_frame_def)
  then have "card ((verts g' \<union> set rest) - visited') \<le> card ((verts g \<union> set (neighbour # rest)) - visited)"
    by (intro card_mono) auto
  then show ?case using r by auto
next
  case (5 neighbour rest g visited out)
  have "card ((verts g \<union> set rest) - visited) \<le> card ((verts g \<union> set (neighbour # rest)) - visited)"
    by (intro card_mono) auto
  then show ?case by auto
qed

definition dfs :: "graph \<Rightarrow> nat \<Rightarrow> graph \<times> nat list" where
  "dfs g v = (let visited = {}; (g1, visited1, out) = dfs_util v (g, visited, []) in (g1, out))"


subsection \<open>Keys, edges and reachability\<close>

definition keys :: "graph \<Rightarrow> nat set" where
  "keys g = set (map fst g)"

definition edges :: "graph \<Rightarrow> (nat \<times> nat) set" where
  "edges g = {(u, v). \<exists>vs. map_of g u = Some vs \<and> v \<in> set vs}"

lemma py_max_nonempty: "xs \<noteq> [] \<Longrightarrow> py_max xs = Inr (Max (set xs))"
proof (cases xs)
  case (Cons a list)
  then show ?thesis using Max.set_eq_fold[of a list] by simp
qed simp

lemma keys_map_of: "(v \<in> keys g) = (map_of g v \<noteq> None)"
  by (simp add: keys_def map_of_eq_None_iff)

lemma graph_getitem_edges:
  "graph_getitem g s = (g1, adj) \<Longrightarrow> edges g1 = edges g \<and> set adj = {v. (s, v) \<in> edges g}"
  by (auto simp: graph_getitem_def edges_def split: option.splits if_splits)

lemma bfs_for_in_range:
  "\<forall>i \<in> set adj. i < length visited \<Longrightarrow>
   \<exists>visited1 queue1. bfs_for adj (visited, queue) = Inr (visited1, queue1) \<and>
      length visited1 = length visited \<and> set queue1 \<subseteq> set queue \<union> set adj"
proof (induction adj "(visited, queue)" arbitrary: visited queue rule: bfs_for.induct)
  case (1 visited queue)
  then show ?case by simp
next
  case (2 i rest visited queue)
  have i: "i < length visited" using 2(3) by simp
  show ?case
  proof (cases "visited ! i")
    case True
    then show ?thesis using 2(2)[of "visited ! i"] 2(3) i
      by (auto simp: getitem_nat)
  next
    case False
    have "\<exists>visited1 queue1. bfs_for rest (visited[i := True], queue @ [i]) = Inr (visited1, queue1) \<and>
      length visited1 = length (visited[i := True]) \<and> set queue1 \<subseteq> set (queue @ [i]) \<union> set rest"
      using 2(1)[of "visited ! i" "visited[i := True]"] 2(3) i False
      by (simp add: getitem_nat setitem_nat)
    then show ?thesis using i False
      by (auto simp: getitem_nat setitem_nat)
  qed
qed

lemma bfs_while_completes:
  "\<forall>q \<in> set queue. \<forall>v. (q, v) \<in> (edges g)\<^sup>* \<longrightarrow> v < length visited \<Longrightarrow>
   fst (bfs_while (g, visited, queue, out)) = Inr ()"
proof (induction "(g, visited, queue, out)" arbitrary: g visited queue out rule: bfs_while.induct)
  case (1 g visited queue out)
  show ?case
  proof (cases queue)
    case Nil
    then show ?thesis by (simp add: bfs_while.simps[of g visited "[]" out])
  next
    case (Cons s queue1)
    obtain g1 adj where gi: "graph_getitem g s = (g1, adj)"
      by (cases "graph_getitem g s")
    note ge = graph_getitem_edges[OF gi]
    have "\<forall>i \<in> set adj. i < length visited"
      using ge 1(2) Cons by auto
    then obtain visited1 queue2 where bf: "bfs_for adj (visited, queue1) = Inr (visited1, queue2)"
      "length visited1 = length visited" "set queue2 \<subseteq> set queue1 \<union> set adj"
      using bfs_for_in_range[of adj visited queue1] by auto
    have inv: "\<forall>q \<in> set queue2. \<forall>v. (q, v) \<in> (edges g1)\<^sup>* \<longrightarrow> v < length visited1"
    proof (intro ballI allI impI)
      fix q v assume q: "q \<in> set queue2" and v: "(q, v) \<in> (edges g1)\<^sup>*"
      have "(s, v) \<in> (edges g)\<^sup>* \<or> q \<in> set queue1"
      proof (cases "q \<in> set queue1")
        case False
        then have "(s, q) \<in> edges g" using q bf(3) ge by auto
        then show ?thesis using v ge by (auto intro: converse_rtrancl_into_rtrancl)
      qed simp
      then show "v < length visited1"
        using 1(2) Cons v ge bf(2) by auto
    qed
    have "fst (bfs_while (g1, visited1, queue2, out @ [s])) = Inr ()"
      using 1(1)[OF Cons refl gi[symmetric] refl bf(1) refl inv] .
    then show ?thesis using Cons gi bf(1)
      by (simp add: bfs_while.simps[of g visited "s # queue1" out])
  qed
qed

subsection \<open>What a traversal does to the graph\<close>

text \<open>
  \<open>grows g g'\<close>: every entry of \<open>g\<close> is unchanged in \<open>g'\<close>, and a key that \<open>g'\<close> has and
  \<open>g\<close> has not maps to the empty list.
\<close>

definition grows :: "graph \<Rightarrow> graph \<Rightarrow> bool" where
  "grows g g' \<longleftrightarrow>
     (\<forall>k. map_of g' k = map_of g k \<or> (map_of g k = None \<and> map_of g' k = Some []))"

lemma grows_refl: "grows g g"
  by (simp add: grows_def)

lemma grows_trans: "grows g1 g2 \<Longrightarrow> grows g2 g3 \<Longrightarrow> grows g1 g3"
  unfolding grows_def by (metis option.distinct(1))

lemma grows_keys: "grows g g' \<Longrightarrow> keys g \<subseteq> keys g'"
  unfolding grows_def keys_map_of subset_iff by (metis option.distinct(1))

lemma graph_getitem_grows:
  "graph_getitem g s = (g1, adj) \<Longrightarrow> grows g g1 \<and> s \<in> keys g1"
  by (auto simp: graph_getitem_def grows_def keys_map_of map_add_def split: option.splits if_splits)

definition appended_keys :: "graph \<times> nat list \<Rightarrow> graph \<times> nat list \<Rightarrow> bool" where
  "appended_keys a b \<longleftrightarrow>
     grows (fst a) (fst b) \<and> (\<exists>new. snd b = snd a @ new \<and> set new \<subseteq> keys (fst b))"

lemma appended_keys_refl: "appended_keys a a"
  by (simp add: appended_keys_def grows_refl)

lemma appended_keys_trans:
  assumes "appended_keys a b" "appended_keys b c"
  shows "appended_keys a c"
proof -
  obtain n1 n2 where n: "snd b = snd a @ n1" "set n1 \<subseteq> keys (fst b)"
    "snd c = snd b @ n2" "set n2 \<subseteq> keys (fst c)"
    using assms by (auto simp: appended_keys_def)
  have g: "grows (fst a) (fst c)" "keys (fst b) \<subseteq> keys (fst c)"
    using assms grows_trans grows_keys by (auto simp: appended_keys_def)
  have "snd c = snd a @ (n1 @ n2)" "set (n1 @ n2) \<subseteq> keys (fst c)"
    using n g by auto
  then show ?thesis using g(1) unfolding appended_keys_def by blast
qed

lemma appended_keys_getitem:
  "graph_getitem g s = (g1, adj) \<Longrightarrow> appended_keys (g, out) (g1, out @ [s])"
  using graph_getitem_grows[of g s g1 adj] by (simp add: appended_keys_def)

lemma bfs_while_keys:
  "appended_keys (g, out) (snd (bfs_while (g, visited, queue, out)))"
proof (induction "(g, visited, queue, out)" arbitrary: g visited queue out rule: bfs_while.induct)
  case (1 g visited queue out)
  show ?case
  proof (cases queue)
    case Nil
    then show ?thesis
      by (simp add: bfs_while.simps[of g visited "[]" out] appended_keys_refl)
  next
    case (Cons s queue1)
    obtain g1 adj where gi: "graph_getitem g s = (g1, adj)"
      by (cases "graph_getitem g s")
    note step = appended_keys_getitem[OF gi, of out]
    show ?thesis
    proof (cases "bfs_for adj (visited, queue1)")
      case (Inl e)
      then show ?thesis using Cons gi step
        by (simp add: bfs_while.simps[of g visited "s # queue1" out])
    next
      case (Inr vq)
      obtain visited1 queue2 where vq: "vq = (visited1, queue2)" by (cases vq)
      have "appended_keys (g1, out @ [s]) (snd (bfs_while (g1, visited1, queue2, out @ [s])))"
        using 1[OF Cons refl gi[symmetric] refl Inr vq[symmetric]] .
      then have "appended_keys (g, out) (snd (bfs_while (g1, visited1, queue2, out @ [s])))"
        using step appended_keys_trans by blast
      then show ?thesis using Cons gi Inr vq
        by (simp add: bfs_while.simps[of g visited "s # queue1" out])
    qed
  qed
qed

lemma bfs_keys: "appended_keys (g, []) (snd (bfs g s))"
  using bfs_while_keys[of g "[]"]
  by (auto simp: bfs_def Let_def appended_keys_refl split: sum.splits)

lemma dfs_keys:
  "appended_keys (fst st, snd (snd st)) (fst (dfs_util v st), snd (snd (dfs_util v st)))"
  "appended_keys (fst st, snd (snd st)) (fst (dfs_for ns st), snd (snd (dfs_for ns st)))"
proof (induction v st and ns st rule: dfs_util_dfs_for.induct)
  case (1 v g visited out)
  obtain g1 adj where gi: "graph_getitem g v = (g1, adj)"
    by (cases "graph_getitem g v")
  note step = appended_keys_getitem[OF gi, of out]
  have ih: "appended_keys (g1, out @ [v])
     (fst (dfs_for adj (g1, insert v visited, out @ [v])),
      snd (snd (dfs_for adj (g1, insert v visited, out @ [v]))))"
    using 1[OF refl refl gi[symmetric] refl] by simp
  have "dfs_util v (g, visited, out) = dfs_for adj (g1, insert v visited, out @ [v])"
    using gi by simp
  then show ?case using appended_keys_trans[OF step ih] by simp
next
  case (2 st)
  then show ?case by (simp add: appended_keys_refl)
next
  case (3 neighbour rest g visited out)
  show ?case
  proof (cases "neighbour \<in> visited")
    case True
    then show ?thesis using 3(3) by simp
  next
    case False
    let ?st1 = "dfs_util neighbour (g, visited, out)"
    have a: "appended_keys (g, out) (fst ?st1, snd (snd ?st1))"
      using 3(1)[OF False] by simp
    have b: "appended_keys (fst ?st1, snd (snd ?st1))
        (fst (dfs_for rest ?st1), snd (snd (dfs_for rest ?st1)))"
      using 3(2)[OF False] .
    show ?thesis using False appended_keys_trans[OF a b] by simp
  qed
qed

lemma appended_keys_created:
  assumes "appended_keys (g, []) (g', out)" "v \<in> set out"
  shows "v \<in> keys g' \<and> (v \<notin> keys g \<longrightarrow> map_of g' v = Some [])"
proof -
  have k: "v \<in> keys g'" and gr: "grows g g'"
    using assms by (auto simp: appended_keys_def)
  have "map_of g' v = Some []" if "v \<notin> keys g"
    using gr k that unfolding grows_def keys_map_of by metis
  then show ?thesis using k by simp
qed

definition reachable :: "graph \<Rightarrow> nat \<Rightarrow> nat set" where
  "reachable g s = (edges g)\<^sup>* `` {s}"

lemma reachable_closed:
  assumes "s \<in> S" "\<forall>(u, vs) \<in> set g. set vs \<subseteq> S"
  shows "reachable g s \<subseteq> S"
proof
  fix v assume "v \<in> reachable g s"
  then have "(s, v) \<in> (edges g)\<^sup>*" by (simp add: reachable_def)
  then show "v \<in> S"
  proof (induction rule: rtrancl_induct)
    case base
    then show ?case using assms(1) .
  next
    case (step y z)
    then obtain vs where "map_of g y = Some vs" "z \<in> set vs"
      by (auto simp: edges_def)
    then show ?case using assms(2) by (auto dest!: map_of_SomeD)
  qed
qed

text \<open>
  Claim C7. \<open>bfs\<close> sizes its marker list as the largest key plus one. On a graph with
  at least one key it raises \<open>IndexError\<close> whenever the start vertex exceeds the largest
  key, and it completes without raising when the start vertex and every vertex
  reachable from it are at most the largest key.
\<close>

theorem bfs_marker_bound:
  assumes "g \<noteq> []"
  shows "(Max (keys g) < s \<longrightarrow> fst (bfs g s) = Inl IndexError) \<and>
         (reachable g s \<subseteq> {v. v \<le> Max (keys g)} \<longrightarrow> fst (bfs g s) = Inr ())"
proof (intro conjI impI)
  have mx: "py_max (map fst g) = Inr (Max (keys g))"
    using assms by (simp add: py_max_nonempty keys_def)
  {
    assume "Max (keys g) < s"
    then show "fst (bfs g s) = Inl IndexError"
      using mx by (simp add: bfs_def setitem_nat)
  next
    assume "reachable g s \<subseteq> {v. v \<le> Max (keys g)}"
    then have reach: "\<forall>v. (s, v) \<in> (edges g)\<^sup>* \<longrightarrow> v \<le> Max (keys g)"
      by (auto simp: reachable_def)
    let ?visited = "replicate (Max (keys g) + 1) False"
    have len: "length (?visited[s := True]) = Suc (Max (keys g))"
      by (simp only: length_list_update length_replicate Suc_eq_plus1)
    have s: "s < length ?visited"
      using reach by (simp add: less_Suc_eq_le del: replicate_Suc)
    have "fst (bfs_while (g, ?visited[s := True], [s], [])) = Inr ()"
    proof (rule bfs_while_completes, intro ballI allI impI)
      fix q v assume "q \<in> set [s]" "(q, v) \<in> (edges g)\<^sup>*"
      then have "v \<le> Max (keys g)" using reach by simp
      then show "v < length (?visited[s := True])" by (simp only: len less_Suc_eq_le)
    qed
    then show "fst (bfs g s) = Inr ()"
      using mx s by (simp add: bfs_def setitem_nat del: replicate_Suc)
  }
qed

theorem bfs_marker_bound_witness:
  "[(0, [1, 2]), (1, [2]), (2, [0, 3]), (3, [3])] \<noteq> ([] :: graph) \<and>
   Max (keys [(0, [1, 2]), (1, [2]), (2, [0, 3]), (3, [3])]) < 7 \<and>
   fst (bfs [(0, [1, 2]), (1, [2]), (2, [0, 3]), (3, [3])] 7) = Inl IndexError \<and>
   reachable [(0, [1, 2]), (1, [2]), (2, [0, 3]), (3, [3])] 2
     \<subseteq> {v. v \<le> Max (keys [(0, [1, 2]), (1, [2]), (2, [0, 3]), (3, [3])])} \<and>
   fst (bfs [(0, [1, 2]), (1, [2]), (2, [0, 3]), (3, [3])] 2) = Inr ()"
proof -
  let ?g = "[(0, [1, 2]), (1, [2]), (2, [0, 3]), (3, [3])] :: graph"
  have ne: "?g \<noteq> []" by simp
  have mx: "Max (keys ?g) = 3" by (simp add: keys_def)
  have r: "reachable ?g 2 \<subseteq> {v. v \<le> Max (keys ?g)}"
    unfolding mx by (rule reachable_closed) simp_all
  show ?thesis
    using bfs_marker_bound[OF ne, of 7] bfs_marker_bound[OF ne, of 2] r mx by simp
qed

text \<open>
  Claim C10. Both traversals look the adjacency of every vertex they visit up in the
  \<open>defaultdict\<close>, so after \<open>bfs\<close> (however it ends) and after \<open>dfs\<close> every vertex of the
  output is a key of the graph, and one that was not a key before the call now maps to
  the empty list.
\<close>

theorem traversal_creates_keys:
  "(case bfs g s of (r, g', out) \<Rightarrow>
      \<forall>v \<in> set out. v \<in> keys g' \<and> (v \<notin> keys g \<longrightarrow> map_of g' v = Some [])) \<and>
   (case dfs g s of (g', out) \<Rightarrow>
      \<forall>v \<in> set out. v \<in> keys g' \<and> (v \<notin> keys g \<longrightarrow> map_of g' v = Some []))"
proof -
  obtain r g1 out1 where b: "bfs g s = (r, g1, out1)" by (cases "bfs g s")
  obtain g2 vis2 out2 where d: "dfs_util s (g, {}, []) = (g2, vis2, out2)"
    by (cases "dfs_util s (g, {}, [])")
  have "appended_keys (g, []) (g1, out1)" using bfs_keys[of g s] b by simp
  moreover have "appended_keys (g, []) (g2, out2)"
    using dfs_keys(1)[of "(g, {}, [])" s] d by simp
  ultimately show ?thesis
    using b d appended_keys_created by (simp add: dfs_def)
qed

theorem traversal_creates_keys_witness:
  "bfs (add_edge (add_edge [] 0 1) 2 0) 0 = (Inr (), [(0, [1]), (2, [0]), (1, [])], [0, 1]) \<and>
   dfs (add_edge (add_edge [] 0 1) 2 0) 0 = ([(0, [1]), (2, [0]), (1, [])], [0, 1]) \<and>
   1 \<notin> keys (add_edge (add_edge [] 0 1) 2 0) \<and>
   1 \<in> keys [(0, [1]), (2, [0]), (1, [])] \<and>
   map_of [(0, [1]), (2, [0]), (1, [])] (1::nat) = Some ([]::nat list)"
proof -
  let ?g = "add_edge (add_edge [] 0 1) 2 0"
  have b: "bfs ?g 0 = (Inr (), [(0, [1]), (2, [0]), (1, [])], [0, 1])"
    by (simp add: bfs_def add_edge_def graph_getitem_def bfs_while.simps setitem_def getitem_def)
  have d: "dfs ?g 0 = ([(0, [1]), (2, [0]), (1, [])], [0, 1])"
    by (simp add: dfs_def add_edge_def graph_getitem_def)
  have k: "1 \<notin> keys ?g"
    by (simp add: keys_def add_edge_def graph_getitem_def)
  show ?thesis
    using traversal_creates_keys[of ?g 0] b d k by simp
qed

text \<open>
  Claim C6 at a graph on which \<open>bfs\<close> does not reach every reachable vertex. After
  \<open>add_edge(0, 5)\<close> the only key is 0, so the marker list has length 1; vertex 5 is
  reachable from 0, \<open>bfs(0)\<close> prints 0 and raises \<open>IndexError\<close> on \<open>visited[5]\<close>, while
  \<open>dfs(0)\<close>, which keeps its visited vertices in a set, prints 0 and 5.
\<close>

theorem bfs_raises_on_unkeyed_successor:
  "reachable (add_edge [] 0 5) 0 = {0, 5} \<and>
   bfs (add_edge [] 0 5) 0 = (Inl IndexError, [(0, [5])], [0]) \<and>
   dfs (add_edge [] 0 5) 0 = ([(0, [5]), (5, [])], [0, 5])"
proof -
  have g: "add_edge [] 0 5 = [(0, [5])]"
    by (simp add: add_edge_def graph_getitem_def)
  have "reachable [(0, [5])] 0 \<subseteq> {0, 5}"
    by (rule reachable_closed) simp_all
  moreover have "(0, 5) \<in> edges [(0, [5])]"
    by (simp add: edges_def)
  then have "{0, 5} \<subseteq> reachable [(0, [5])] 0"
    by (auto simp: reachable_def)
  ultimately have r: "reachable [(0, [5])] 0 = {0, 5}" by blast
  have b: "bfs [(0, [5])] 0 = (Inl IndexError, [(0, [5])], [0])"
    by (simp add: bfs_def graph_getitem_def bfs_while.simps setitem_def getitem_def)
  have d: "dfs [(0, [5])] 0 = ([(0, [5]), (5, [])], [0, 5])"
    by (simp add: dfs_def graph_getitem_def)
  show ?thesis using r b d by (simp add: g)
qed

subsection \<open>What the traversals visit\<close>

lemma grows_edges:
  assumes "grows g g'"
  shows "edges g' = edges g"
proof -
  have "(\<exists>vs. map_of g' u = Some vs \<and> v \<in> set vs) = (\<exists>vs. map_of g u = Some vs \<and> v \<in> set vs)"
    for u v
  proof -
    consider "map_of g' u = map_of g u" | "map_of g u = None" "map_of g' u = Some []"
      using assms[unfolded grows_def, THEN spec, of u] by auto
    then show ?thesis
    proof cases
      case 1
      then show ?thesis by simp
    next
      case 2
      then show ?thesis by simp
    qed
  qed
  then show ?thesis by (simp add: edges_def)
qed

lemma dfs_util_edges: "edges (fst (dfs_util v st)) = edges (fst st)"
  using dfs_keys(1)[of st v] by (simp add: appended_keys_def grows_edges)

text \<open>
  The effect of a depth-first call on the visited set and the output, from state \<open>st\<close>
  to state \<open>st'\<close>: the visited set only grows; every newly visited vertex has all its
  successors visited; every newly visited vertex is reachable from one of \<open>roots\<close>; and
  the output is extended by the newly visited vertices, each once.
\<close>

definition dfs_post :: "(nat \<times> nat) set \<Rightarrow> nat set \<Rightarrow> dfs_state \<Rightarrow> dfs_state \<Rightarrow> bool" where
  "dfs_post E roots st st' \<longleftrightarrow>
     fst (snd st) \<subseteq> fst (snd st') \<and>
     (\<forall>u \<in> fst (snd st') - fst (snd st). \<forall>w. (u, w) \<in> E \<longrightarrow> w \<in> fst (snd st')) \<and>
     fst (snd st') - fst (snd st) \<subseteq> E\<^sup>* `` roots \<and>
     (\<exists>new. snd (snd st') = snd (snd st) @ new \<and> distinct new \<and>
            set new = fst (snd st') - fst (snd st))"

lemma dfs_postI:
  assumes "fst (snd st) \<subseteq> fst (snd st')"
    "\<forall>u \<in> fst (snd st') - fst (snd st). \<forall>w. (u, w) \<in> E \<longrightarrow> w \<in> fst (snd st')"
    "fst (snd st') - fst (snd st) \<subseteq> E\<^sup>* `` roots"
    "snd (snd st') = snd (snd st) @ new" "distinct new"
    "set new = fst (snd st') - fst (snd st)"
  shows "dfs_post E roots st st'"
  unfolding dfs_post_def using assms by blast

lemma dfs_post_mono:
  "dfs_post E roots st st' \<Longrightarrow> roots \<subseteq> roots' \<Longrightarrow> dfs_post E roots' st st'"
proof -
  assume p: "dfs_post E roots st st'" and r: "roots \<subseteq> roots'"
  have "E\<^sup>* `` roots \<subseteq> E\<^sup>* `` roots'" using r by (rule Image_mono[OF subset_refl])
  then show ?thesis using p unfolding dfs_post_def by (meson subset_trans)
qed


lemma dfs_postD:
  assumes "dfs_post E roots st st'"
  shows "fst (snd st) \<subseteq> fst (snd st')"
    and "\<And>u w. u \<in> fst (snd st') \<Longrightarrow> u \<notin> fst (snd st) \<Longrightarrow> (u, w) \<in> E \<Longrightarrow> w \<in> fst (snd st')"
    and "\<And>u. u \<in> fst (snd st') \<Longrightarrow> u \<notin> fst (snd st) \<Longrightarrow> u \<in> E\<^sup>* `` roots"
    and "\<exists>new. snd (snd st') = snd (snd st) @ new \<and> distinct new \<and>
            set new = fst (snd st') - fst (snd st)"
proof -
  show "fst (snd st) \<subseteq> fst (snd st')"
    using assms unfolding dfs_post_def by (elim conjE)
  show "w \<in> fst (snd st')" if "u \<in> fst (snd st')" "u \<notin> fst (snd st)" "(u, w) \<in> E" for u w
  proof -
    have "\<forall>u \<in> fst (snd st') - fst (snd st). \<forall>w. (u, w) \<in> E \<longrightarrow> w \<in> fst (snd st')"
      using assms unfolding dfs_post_def by (elim conjE)
    moreover have "u \<in> fst (snd st') - fst (snd st)" using that by simp
    ultimately show ?thesis using that(3) by blast
  qed
  show "u \<in> E\<^sup>* `` roots" if "u \<in> fst (snd st')" "u \<notin> fst (snd st)" for u
  proof -
    have "fst (snd st') - fst (snd st) \<subseteq> E\<^sup>* `` roots"
      using assms unfolding dfs_post_def by (elim conjE)
    moreover have "u \<in> fst (snd st') - fst (snd st)" using that by simp
    ultimately show ?thesis by (rule subsetD)
  qed
  show "\<exists>new. snd (snd st') = snd (snd st) @ new \<and> distinct new \<and>
            set new = fst (snd st') - fst (snd st)"
    using assms unfolding dfs_post_def by (elim conjE)
qed

lemma dfs_post_correct:
  "v \<notin> fst (snd st) \<Longrightarrow>
     dfs_post (edges (fst st)) {v} st (dfs_util v st) \<and> v \<in> fst (snd (dfs_util v st))"
  "dfs_post (edges (fst st)) (set ns) st (dfs_for ns st) \<and> set ns \<subseteq> fst (snd (dfs_for ns st))"
proof (induction v st and ns st rule: dfs_util_dfs_for.induct)
  case (1 v g visited out)
  obtain g1 adj where gi: "graph_getitem g v = (g1, adj)"
    by (cases "graph_getitem g v")
  note ge = graph_getitem_edges[OF gi]
  define st1 where "st1 = (g1, insert v visited, out @ [v])"
  define st' where "st' = dfs_for adj st1"
  define vis' where "vis' = fst (snd st')"
  have eq: "dfs_util v (g, visited, out) = st'"
    using gi by (simp add: st'_def st1_def)
  have "dfs_post (edges (fst st1)) (set adj) st1 (dfs_for adj st1) \<and>
        set adj \<subseteq> fst (snd (dfs_for adj st1))"
    unfolding st1_def by (rule 1(1)[OF refl refl gi[symmetric] refl])
  then have ih: "dfs_post (edges g) (set adj) st1 st'" "set adj \<subseteq> vis'"
    using ge by (simp_all add: st'_def st1_def vis'_def)
  have vis1: "fst (snd st1) = insert v visited" "snd (snd st1) = out @ [v]"
    by (simp_all add: st1_def)
  obtain new where new: "snd (snd st') = (out @ [v]) @ new" "distinct new"
    "set new = vis' - insert v visited"
    using dfs_postD(4)[OF ih(1)] unfolding vis1 vis'_def by blast
  have sub: "insert v visited \<subseteq> vis'"
    using dfs_postD(1)[OF ih(1)] unfolding vis1 vis'_def .
  have closed: "w \<in> vis'" if u: "u \<in> vis'" "u \<notin> visited" and e: "(u, w) \<in> edges g" for u w
  proof (cases "u = v")
    case True
    then have "w \<in> set adj" using e ge by simp
    then show ?thesis using ih(2) by blast
  next
    case False
    then have "u \<notin> fst (snd st1)" using u(2) by (simp add: vis1)
    then show ?thesis using dfs_postD(2)[OF ih(1), of u w] u(1) e by (simp add: vis'_def)
  qed
  have reach: "u \<in> (edges g)\<^sup>* `` {v}" if u: "u \<in> vis'" "u \<notin> visited" for u
  proof (cases "u = v")
    case True
    then show ?thesis by simp
  next
    case False
    then have "u \<notin> fst (snd st1)" using u(2) by (simp add: vis1)
    then have "u \<in> (edges g)\<^sup>* `` set adj"
      using dfs_postD(3)[OF ih(1), of u] u(1) by (simp add: vis'_def)
    then obtain a where a: "a \<in> set adj" "(a, u) \<in> (edges g)\<^sup>*" by blast
    have "(v, a) \<in> edges g" using a(1) ge by simp
    then have "(v, u) \<in> (edges g)\<^sup>*" using a(2) by (rule converse_rtrancl_into_rtrancl)
    then show ?thesis by simp
  qed
  have vnew: "v \<notin> set new" using new(3) by simp
  have setnew: "set (v # new) = vis' - visited"
  proof -
    have "v \<in> vis'" using sub by simp
    then show ?thesis using new(3) 1(2) by auto
  qed
  have "dfs_post (edges g) {v} (g, visited, out) st'"
  proof (rule dfs_postI[where new = "v # new"])
    show "fst (snd (g, visited, out)) \<subseteq> fst (snd st')" using sub by (simp add: vis'_def)
    show "\<forall>u \<in> fst (snd st') - fst (snd (g, visited, out)). \<forall>w. (u, w) \<in> edges g \<longrightarrow> w \<in> fst (snd st')"
      using closed unfolding vis'_def by (simp only: fst_conv snd_conv) blast
    show "fst (snd st') - fst (snd (g, visited, out)) \<subseteq> (edges g)\<^sup>* `` {v}"
      using reach unfolding vis'_def by (intro subsetI) simp
    show "snd (snd st') = snd (snd (g, visited, out)) @ (v # new)" using new(1) by simp
    show "distinct (v # new)" using new(2) vnew by simp
    show "set (v # new) = fst (snd st') - fst (snd (g, visited, out))"
      using setnew by (simp only: vis'_def fst_conv snd_conv)
  qed
  moreover have "v \<in> fst (snd st')" using sub by (simp add: vis'_def)
  ultimately show ?case unfolding eq by simp
next
  case (2 st)
  have "dfs_post (edges (fst st)) (set []) st st"
    by (rule dfs_postI[where new = "[]"]) simp_all
  then show ?case by simp
next
  case (3 neighbour rest g visited out)
  show ?case
  proof (cases "neighbour \<in> visited")
    case True
    have eq: "dfs_for (neighbour # rest) (g, visited, out) = dfs_for rest (g, visited, out)"
      using True by simp
    have ih: "dfs_post (edges g) (set rest) (g, visited, out) (dfs_for rest (g, visited, out))"
      "set rest \<subseteq> fst (snd (dfs_for rest (g, visited, out)))"
      using 3(3) True by simp_all
    have "dfs_post (edges g) (set (neighbour # rest)) (g, visited, out) (dfs_for rest (g, visited, out))"
      using ih(1) by (rule dfs_post_mono) auto
    moreover have "neighbour \<in> fst (snd (dfs_for rest (g, visited, out)))"
      using dfs_postD(1)[OF ih(1)] True by auto
    ultimately show ?thesis unfolding eq using ih(2) by simp
  next
    case False
    define st1 where "st1 = dfs_util neighbour (g, visited, out)"
    define st' where "st' = dfs_for rest st1"
    define vis1 where "vis1 = fst (snd st1)"
    define vis' where "vis' = fst (snd st')"
    have eq: "dfs_for (neighbour # rest) (g, visited, out) = st'"
      using False by (simp add: st'_def st1_def)
    have e1: "edges (fst st1) = edges g"
      using dfs_util_edges[of neighbour "(g, visited, out)"] by (simp add: st1_def)
    have a: "dfs_post (edges g) {neighbour} (g, visited, out) st1" "neighbour \<in> vis1"
      using 3(1)[OF False] False by (simp_all add: st1_def vis1_def)
    have "dfs_post (edges (fst st1)) (set rest) st1 (dfs_for rest st1) \<and>
          set rest \<subseteq> fst (snd (dfs_for rest st1))"
      unfolding st1_def by (rule 3(2)[OF False])
    then have b: "dfs_post (edges g) (set rest) st1 st'" "set rest \<subseteq> vis'"
      using e1 by (simp_all add: st'_def vis'_def)
    obtain n1 where n1: "snd (snd st1) = out @ n1" "distinct n1" "set n1 = vis1 - visited"
      using dfs_postD(4)[OF a(1)] unfolding vis1_def by auto
    obtain n2 where n2: "snd (snd st') = snd (snd st1) @ n2" "distinct n2" "set n2 = vis' - vis1"
      using dfs_postD(4)[OF b(1)] unfolding vis1_def vis'_def by auto
    have s1: "visited \<subseteq> vis1" using dfs_postD(1)[OF a(1)] by (simp add: vis1_def)
    have s2: "vis1 \<subseteq> vis'" using dfs_postD(1)[OF b(1)] by (simp add: vis1_def vis'_def)
    have closed: "w \<in> vis'" if u: "u \<in> vis'" "u \<notin> visited" and e: "(u, w) \<in> edges g" for u w
    proof (cases "u \<in> vis1")
      case True
      then have "w \<in> vis1" using dfs_postD(2)[OF a(1), of u w] u(2) e by (simp add: vis1_def)
      then show ?thesis using s2 by blast
    next
      case False
      then show ?thesis using dfs_postD(2)[OF b(1), of u w] u(1) e by (simp add: vis1_def vis'_def)
    qed
    have reach: "u \<in> (edges g)\<^sup>* `` set (neighbour # rest)" if u: "u \<in> vis'" "u \<notin> visited" for u
    proof (cases "u \<in> vis1")
      case True
      then have "u \<in> (edges g)\<^sup>* `` {neighbour}"
        using dfs_postD(3)[OF a(1), of u] u(2) by (simp add: vis1_def)
      then show ?thesis by auto
    next
      case False
      then have "u \<in> (edges g)\<^sup>* `` set rest"
        using dfs_postD(3)[OF b(1), of u] u(1) by (simp add: vis1_def vis'_def)
      then show ?thesis by auto
    qed
    have dn: "distinct (n1 @ n2)" using n1(2,3) n2(2,3) by auto
    have sn: "set (n1 @ n2) = vis' - visited" using n1(3) n2(3) s1 s2 by auto
    have "dfs_post (edges g) (set (neighbour # rest)) (g, visited, out) st'"
    proof (rule dfs_postI[where new = "n1 @ n2"])
      show "fst (snd (g, visited, out)) \<subseteq> fst (snd st')" using s1 s2 by (simp add: vis'_def)
      show "\<forall>u \<in> fst (snd st') - fst (snd (g, visited, out)). \<forall>w. (u, w) \<in> edges g \<longrightarrow> w \<in> fst (snd st')"
        using closed unfolding vis'_def by (simp only: fst_conv snd_conv) blast
      show "fst (snd st') - fst (snd (g, visited, out)) \<subseteq> (edges g)\<^sup>* `` set (neighbour # rest)"
        using reach unfolding vis'_def by (intro subsetI) simp
      show "snd (snd st') = snd (snd (g, visited, out)) @ (n1 @ n2)" using n1(1) n2(1) by simp
      show "distinct (n1 @ n2)" using dn .
      show "set (n1 @ n2) = fst (snd st') - fst (snd (g, visited, out))"
        using sn by (simp only: vis'_def fst_conv snd_conv)
    qed
    moreover have "neighbour \<in> fst (snd st')" using a(2) s2 by (auto simp: vis'_def)
    moreover have "set rest \<subseteq> fst (snd st')" using b(2) by (simp add: vis'_def)
    ultimately show ?thesis unfolding eq by simp
  qed
qed

lemma closed_contains_reachable:
  assumes "s \<in> V" "\<And>u w. u \<in> V \<Longrightarrow> (u, w) \<in> E \<Longrightarrow> w \<in> V"
  shows "E\<^sup>* `` {s} \<subseteq> V"
proof
  fix v assume "v \<in> E\<^sup>* `` {s}"
  then have "(s, v) \<in> E\<^sup>*" by simp
  then show "v \<in> V"
  proof (induction rule: rtrancl_induct)
    case base
    then show ?case using assms(1) .
  next
    case (step y z)
    then show ?case using assms(2) by blast
  qed
qed

text \<open>
  Depth-first traversal is right on every graph: from every start vertex, \<open>dfs\<close> prints
  exactly the vertices reachable from the start vertex (the start vertex included),
  each exactly once.
\<close>

theorem dfs_visits_reachable_once:
  "case dfs g s of (g', out) \<Rightarrow> set out = reachable g s \<and> distinct out"
proof -
  obtain g' vis out where d: "dfs_util s (g, {}, []) = (g', vis, out)"
    by (cases "dfs_util s (g, {}, [])")
  have "dfs_post (edges g) {s} (g, {}, []) (dfs_util s (g, {}, [])) \<and>
        s \<in> fst (snd (dfs_util s (g, {}, [])))"
    using dfs_post_correct(1)[of s "(g, {}, [])"] by simp
  then have p: "dfs_post (edges g) {s} (g, {}, []) (g', vis, out)" "s \<in> vis"
    using d by simp_all
  have "vis \<subseteq> reachable g s"
    using dfs_postD(3)[OF p(1)] unfolding reachable_def by (intro subsetI) simp
  moreover have "reachable g s \<subseteq> vis"
    unfolding reachable_def
  proof (rule closed_contains_reachable)
    show "s \<in> vis" using p(2) .
    show "w \<in> vis" if "u \<in> vis" "(u, w) \<in> edges g" for u w
      using dfs_postD(2)[OF p(1), of u w] that by simp
  qed
  moreover have "set out = vis" "distinct out"
    using dfs_postD(4)[OF p(1)] by auto
  ultimately show ?thesis using d by (simp add: dfs_def)
qed


text \<open>The vertices whose entry in the marker list is \<open>True\<close>.\<close>

definition marked :: "bool list \<Rightarrow> nat set" where
  "marked visited = {i. i < length visited \<and> visited ! i}"

lemma marked_update:
  "i < length visited \<Longrightarrow> marked (visited[i := True]) = insert i (marked visited)"
  by (auto simp: marked_def nth_list_update)

lemma bfs_for_marks:
  "bfs_for adj (visited, queue) = Inr (visited1, queue1) \<Longrightarrow>
   marked visited1 = marked visited \<union> set adj \<and>
   (\<exists>new. queue1 = queue @ new \<and> distinct new \<and> set new = set adj - marked visited)"
proof (induction adj "(visited, queue)" arbitrary: visited queue rule: bfs_for.induct)
  case (1 visited queue)
  then show ?case by simp
next
  case (2 i rest visited queue)
  have i: "i < length visited"
    using 2(3) by (simp add: getitem_nat split: if_splits)
  show ?case
  proof (cases "visited ! i")
    case True
    then have im: "i \<in> marked visited" using i by (simp add: marked_def)
    have r: "bfs_for rest (visited, queue) = Inr (visited1, queue1)"
      using 2(3) i True by (simp add: getitem_nat)
    have ih: "marked visited1 = marked visited \<union> set rest"
      "\<exists>new. queue1 = queue @ new \<and> distinct new \<and> set new = set rest - marked visited"
      using 2(2)[OF _ _ r, of "visited ! i"] i True by (simp_all add: getitem_nat)
    have "marked visited \<union> set (i # rest) = marked visited \<union> set rest"
      using im by auto
    moreover have "set (i # rest) - marked visited = set rest - marked visited"
      using im by auto
    ultimately show ?thesis using ih by simp
  next
    case False
    then have im: "i \<notin> marked visited" by (simp add: marked_def)
    let ?v2 = "visited[i := True]"
    have r: "bfs_for rest (?v2, queue @ [i]) = Inr (visited1, queue1)"
      using 2(3) i False by (simp add: getitem_nat setitem_nat)
    have "marked visited1 = marked ?v2 \<union> set rest \<and>
      (\<exists>new. queue1 = (queue @ [i]) @ new \<and> distinct new \<and> set new = set rest - marked ?v2)"
      using 2(1)[OF _ _ _ r, of "visited ! i"] i False by (simp add: getitem_nat setitem_nat)
    then obtain new where ih: "marked visited1 = marked ?v2 \<union> set rest"
      "queue1 = (queue @ [i]) @ new" "distinct new" "set new = set rest - marked ?v2"
      by blast
    have m2: "marked ?v2 = insert i (marked visited)" using i by (rule marked_update)
    have a: "marked visited1 = marked visited \<union> set (i # rest)"
      using ih(1) m2 by auto
    have b: "queue1 = queue @ (i # new)" using ih(2) by simp
    have c: "distinct (i # new)" using ih(3,4) m2 by auto
    have d: "set (i # new) = set (i # rest) - marked visited"
      using ih(4) m2 im by auto
    show ?thesis using a b c d by blast
  qed
qed

lemma bfs_while_visits:
  assumes "marked visited = set out \<union> set queue" "distinct (out @ queue)"
    "\<And>u w. u \<in> set out \<Longrightarrow> (u, w) \<in> edges g \<Longrightarrow> w \<in> marked visited"
    "marked visited \<subseteq> R" "\<And>u w. u \<in> R \<Longrightarrow> (u, w) \<in> edges g \<Longrightarrow> w \<in> R"
    "fst (bfs_while (g, visited, queue, out)) = Inr ()"
  shows "distinct (snd (snd (bfs_while (g, visited, queue, out)))) \<and>
         set out \<union> set queue \<subseteq> set (snd (snd (bfs_while (g, visited, queue, out)))) \<and>
         (\<forall>u \<in> set (snd (snd (bfs_while (g, visited, queue, out)))). \<forall>w. (u, w) \<in> edges g \<longrightarrow>
              w \<in> set (snd (snd (bfs_while (g, visited, queue, out))))) \<and>
         set (snd (snd (bfs_while (g, visited, queue, out)))) \<subseteq> R"
  using assms
proof (induction "(g, visited, queue, out)" arbitrary: g visited queue out rule: bfs_while.induct)
  case (1 g visited queue out)
  note inv = 1(2-6) and res = 1(7)
  show ?case
  proof (cases queue)
    case Nil
    have eq: "bfs_while (g, visited, queue, out) = (Inr (), g, out)"
      using Nil by (simp add: bfs_while.simps[of g visited "[]" out])
    have m: "marked visited = set out" using inv(1) Nil by simp
    show ?thesis unfolding eq using inv(2,3,4) Nil m by auto
  next
    case (Cons s queue1)
    obtain g1 adj where gi: "graph_getitem g s = (g1, adj)"
      by (cases "graph_getitem g s")
    note ge = graph_getitem_edges[OF gi]
    obtain visited1 queue2 where bf: "bfs_for adj (visited, queue1) = Inr (visited1, queue2)"
    proof (cases "bfs_for adj (visited, queue1)")
      case (Inl e)
      then have "fst (bfs_while (g, visited, queue, out)) = Inl e"
        using Cons gi by (simp add: bfs_while.simps[of g visited "s # queue1" out])
      then show ?thesis using res by simp
    next
      case (Inr vq)
      then show ?thesis using that by (cases vq) simp
    qed
    have eq: "bfs_while (g, visited, queue, out) = bfs_while (g1, visited1, queue2, out @ [s])"
      using Cons gi bf by (simp add: bfs_while.simps[of g visited "s # queue1" out])
    obtain new where mk: "marked visited1 = marked visited \<union> set adj"
      "queue2 = queue1 @ new" "distinct new" "set new = set adj - marked visited"
      using bfs_for_marks[OF bf] by blast
    have mv: "marked visited = set out \<union> insert s (set queue1)"
      using inv(1) Cons by simp
    have i1: "marked visited1 = set (out @ [s]) \<union> set queue2"
      using mk(1,2,4) mv by auto
    have i2: "distinct ((out @ [s]) @ queue2)"
      using inv(2) Cons mk(2,3,4) mv by auto
    have i3: "w \<in> marked visited1" if "u \<in> set (out @ [s])" "(u, w) \<in> edges g1" for u w
    proof (cases "u = s")
      case True
      then have "w \<in> set adj" using that(2) ge by simp
      then show ?thesis using mk(1) by simp
    next
      case False
      then have "u \<in> set out" using that(1) by simp
      then have "w \<in> marked visited" using inv(3)[of u w] that(2) ge by simp
      then show ?thesis using mk(1) by simp
    qed
    have sR: "s \<in> R" using inv(4) mv by auto
    have i4: "marked visited1 \<subseteq> R"
    proof
      fix w assume "w \<in> marked visited1"
      then consider "w \<in> marked visited" | "w \<in> set adj" using mk(1) by auto
      then show "w \<in> R"
      proof cases
        case 1
        then show ?thesis using inv(4) by auto
      next
        case 2
        then have "(s, w) \<in> edges g" using ge by simp
        then show ?thesis using inv(5)[OF sR] by simp
      qed
    qed
    have i5: "w \<in> R" if "u \<in> R" "(u, w) \<in> edges g1" for u w
      using inv(5)[of u w] that ge by simp
    have i6: "fst (bfs_while (g1, visited1, queue2, out @ [s])) = Inr ()"
      using res eq by simp
    let ?out' = "snd (snd (bfs_while (g1, visited1, queue2, out @ [s])))"
    have ih: "distinct ?out' \<and> set (out @ [s]) \<union> set queue2 \<subseteq> set ?out' \<and>
       (\<forall>u \<in> set ?out'. \<forall>w. (u, w) \<in> edges g1 \<longrightarrow> w \<in> set ?out') \<and> set ?out' \<subseteq> R"
      using 1(1)[OF Cons refl gi[symmetric] refl bf refl i1 i2 i3 i4 i5 i6] by simp
    have "set out \<union> set queue \<subseteq> set ?out'"
      using ih Cons mk(2) by auto
    then show ?thesis unfolding eq using ih ge by simp
  qed
qed

text \<open>
  Breadth-first traversal is right whenever it gets to its end: if \<open>bfs\<close> returns
  without raising, it has printed exactly the vertices reachable from the start vertex,
  each exactly once.
\<close>

theorem bfs_visits_reachable_once:
  "fst (bfs g s) = Inr () \<longrightarrow>
     set (snd (snd (bfs g s))) = reachable g s \<and> distinct (snd (snd (bfs g s)))"
proof
  assume ok: "fst (bfs g s) = Inr ()"
  obtain m where mx: "py_max (map fst g) = Inr m"
    using ok by (cases "py_max (map fst g)") (simp_all add: bfs_def)
  let ?v0 = "replicate (m + 1) False"
  have s: "s < length ?v0"
  proof (rule ccontr)
    assume "\<not> s < length ?v0"
    then have "setitem ?v0 (int s) True = Inl IndexError" by (simp only: setitem_nat if_False)
    then have "fst (bfs g s) = Inl IndexError" using mx by (simp add: bfs_def del: replicate_Suc)
    then show False using ok by simp
  qed
  let ?v1 = "?v0[s := True]"
  have eq: "bfs g s = bfs_while (g, ?v1, [s], [])"
    using mx s by (simp add: bfs_def setitem_nat del: replicate_Suc)
  have "marked ?v0 = {}" by (auto simp: marked_def simp del: replicate_Suc)
  then have m1: "marked ?v1 = {s}" using marked_update[OF s] by simp
  let ?R = "reachable g s"
  let ?out = "snd (snd (bfs_while (g, ?v1, [s], [])))"
  have r: "distinct ?out \<and> set [] \<union> set [s] \<subseteq> set ?out \<and>
     (\<forall>u \<in> set ?out. \<forall>w. (u, w) \<in> edges g \<longrightarrow> w \<in> set ?out) \<and> set ?out \<subseteq> ?R"
  proof (rule bfs_while_visits)
    show "marked ?v1 = set [] \<union> set [s]" using m1 by simp
    show "distinct ([] @ [s])" by simp
    show "w \<in> marked ?v1" if "u \<in> set []" for u w using that by simp
    show "marked ?v1 \<subseteq> ?R" using m1 by (simp add: reachable_def)
    show "w \<in> ?R" if "u \<in> ?R" "(u, w) \<in> edges g" for u w
      using that by (auto simp: reachable_def intro: rtrancl_into_rtrancl)
    show "fst (bfs_while (g, ?v1, [s], [])) = Inr ()" using ok eq by simp
  qed
  have "?R \<subseteq> set ?out"
    unfolding reachable_def
  proof (rule closed_contains_reachable)
    show "s \<in> set ?out" using r by simp
    show "w \<in> set ?out" if "u \<in> set ?out" "(u, w) \<in> edges g" for u w
      using r that by blast
  qed
  then show "set (snd (snd (bfs g s))) = reachable g s \<and> distinct (snd (snd (bfs g s)))"
    unfolding eq using r by blast
qed

theorem bfs_visits_reachable_once_witness:
  "bfs (add_edge (add_edge (add_edge (add_edge (add_edge (add_edge [] 0 1) 0 2) 1 2) 2 0) 2 3) 3 3) 2 =
     (Inr (), [(0, [1, 2]), (1, [2]), (2, [0, 3]), (3, [3])], [2, 0, 3, 1]) \<and>
   reachable (add_edge (add_edge (add_edge (add_edge (add_edge (add_edge [] 0 1) 0 2) 1 2) 2 0) 2 3) 3 3) 2 =
     {0, 1, 2, 3}"
proof -
  let ?g = "add_edge (add_edge (add_edge (add_edge (add_edge (add_edge [] 0 1) 0 2) 1 2) 2 0) 2 3) 3 3"
  have g: "?g = [(0, [1, 2]), (1, [2]), (2, [0, 3]), (3, [3])]"
    by (simp add: add_edge_def graph_getitem_def)
  have b: "bfs [(0, [1, 2]), (1, [2]), (2, [0, 3]), (3, [3])] 2 =
      (Inr (), [(0, [1, 2]), (1, [2]), (2, [0, 3]), (3, [3])], [2, 0, 3, 1])"
    by (simp add: bfs_def graph_getitem_def bfs_while.simps setitem_def getitem_def Let_def)
  have "reachable [(0, [1, 2]), (1, [2]), (2, [0, 3]), (3, [3])] 2 = set [2, 0, 3, 1]"
    using bfs_visits_reachable_once[of ?g 2, unfolded g] b by simp
  then have "reachable [(0, [1, 2]), (1, [2]), (2, [0, 3]), (3, [3])] 2 = {0, 1, 2, 3}"
    by auto
  then show ?thesis using b unfolding g by simp
qed

end
